theory Spec2Isabelle
  imports Complex_Main "HOL-Library.Multiset" "HOL-Library.Sublist"
begin

section \<open>Data model\<close>

text \<open>
  The report generator of \<^verbatim>\<open>grafana_collector/report/report.go\<close> and its configuration
  \<^verbatim>\<open>grafana_collector/config/config.go\<close>. Go's \<^verbatim>\<open>float64\<close> geometry values are only
  carried from the configuration into draw commands and never computed with, so they are
  kept as numbers of type \<open>real\<close>.
\<close>

type_synonym float64 = real

subsection \<open>Package config\<close>

record grafana =
  Theme :: string
  ClientTimeout :: int
  ServerTimeout :: int
  RetryInterval :: int

record font =
  Family :: string
  Ttf :: string
  Size :: int

record rect =
  Width :: float64
  Height :: float64

record position =
  X :: float64
  TitleY1 :: float64
  TitleY2 :: float64
  ImageY1 :: float64
  ImageY2 :: float64
  Br :: float64

text \<open>The Go map \<^verbatim>\<open>Rect map[string]rect\<close> is an association list read with \<open>map_of\<close>.\<close>

record Config =
  Grafana :: grafana
  Font :: font
  Rect :: "(string \<times> rect) list"
  Position :: position

definition defaultConf :: Config where
  "defaultConf =
     \<lparr>Grafana = \<lparr>Theme = ''dark'', ClientTimeout = 300, ServerTimeout = 300, RetryInterval = 10\<rparr>,
      Font = \<lparr>Family = ''opensans'', Ttf = ''OpenSans-Regular.ttf'', Size = 14\<rparr>,
      Rect = [(''page'', \<lparr>Width = 595.28, Height = 841.89\<rparr>),
              (''graph'', \<lparr>Width = 480.0, Height = 240.0\<rparr>),
              (''singlestat'', \<lparr>Width = 480.0, Height = 93.0\<rparr>)],
      Position = \<lparr>X = 50.0, TitleY1 = 60.0, TitleY2 = 350.0, ImageY1 = 80.0,
                  ImageY2 = 370.0, Br = 20.0\<rparr>\<rparr>"

text \<open>Reading a Go map at a missing key gives the zero value of the element type.\<close>

definition Rect_at :: "Config \<Rightarrow> string \<Rightarrow> rect" where
  "Rect_at c k = (case map_of (Rect c) k of None \<Rightarrow> \<lparr>Width = 0, Height = 0\<rparr> | Some r \<Rightarrow> r)"

subsection \<open>Package grafana: panels, dashboards, time ranges\<close>

text \<open>
  Modelled from the spec: the types \<^verbatim>\<open>grafana.Panel\<close>, \<^verbatim>\<open>grafana.Dashboard\<close> and
  \<^verbatim>\<open>grafana.TimeRange\<close> are declared in the package \<^verbatim>\<open>grafana_collector/grafana\<close>, which
  is not among the sources. A panel has an identifier, a display title, the title of its
  row and a kind from a closed set with at least a graph-like and a single-value-like
  member; a dashboard has a title and its panels in order; a time range has for each
  bound a raw and a human-formatted representation.
\<close>

datatype kind = Graph | SingleStat | OtherKind

record Panel =
  ID :: int
  Title :: string
  RowTitle :: string
  Kind :: kind

definition IsSingleStat :: "Panel \<Rightarrow> bool" where
  "IsSingleStat p = (Kind p = SingleStat)"

record Dashboard =
  DashTitle :: string
  Panels :: "Panel list"

record TimeRange =
  From :: string
  To :: string
  FromFormatted :: string
  ToFormatted :: string

subsection \<open>Errors and log entries\<close>

text \<open>
  An error is either a value handed back by a collaborator (\<open>ExtError\<close>), the result of
  \<^verbatim>\<open>errors.Errorf\<close> with its format string and arguments, or \<^verbatim>\<open>errors.Wrap\<close> of an error
  with a message. Format strings are kept literally, with their arguments beside them.
\<close>

datatype fmt_arg =
    AStr string
  | AInt int
  | APanel Panel
  | ADash Dashboard
  | ACfg Config
  | AErr error
and error =
    ExtError string
  | Errorf string "fmt_arg list"
  | Wrap error string

datatype level = LError | LInfo

subsection \<open>The world outside the process\<close>

text \<open>
  A page of the document under construction is the sequence of draw commands issued
  while it was the current page.
\<close>

datatype draw =
    SetX float64
  | SetY float64
  | Cell string
  | DrawBr float64
  | Image string float64 float64 rect

type_synonym page = "draw list"

datatype content = Bytes "nat list" | PdfDoc "page list"

datatype node = Dir | File content

text \<open>
  Every call that leaves the process is recorded, in order, as an event: calls to the
  remote service, to the file system, closing of streams and files, and log lines. So
  are the start of a worker goroutine (\<open>EvGo\<close>, with its number in the loop that starts
  them) and its deferred \<^verbatim>\<open>wg.Done()\<close> (\<open>EvWgDone\<close>).
\<close>

datatype event =
    EvGetDashboard string
  | EvGetPanelPng Panel bool
  | EvBodyClose Panel
  | EvMkdirAll string bool
  | EvCreate string bool
  | EvCopy string bool
  | EvFileClose string
  | EvRemoveAll string
  | EvWritePdf string
  | EvOpen string bool
  | EvLog level string "fmt_arg list"
  | EvGo nat
  | EvWgDone nat

record world =
  fs :: "string \<rightharpoonup> node"
  evs :: "event list"

definition emit :: "event \<Rightarrow> world \<Rightarrow> world" where
  "emit e w = w\<lparr>evs := evs w @ [e]\<rparr>"

definition log_Errorf :: "string \<Rightarrow> fmt_arg list \<Rightarrow> world \<Rightarrow> world" where
  "log_Errorf f args w = emit (EvLog LError f args) w"

definition log_Infof :: "string \<Rightarrow> fmt_arg list \<Rightarrow> world \<Rightarrow> world" where
  "log_Infof f args w = emit (EvLog LInfo f args) w"

text \<open>The response body of a panel request: its bytes, and the read error, if any.\<close>

record body =
  data :: "nat list"
  read_err :: "error option"

text \<open>
  The remote service (\<^verbatim>\<open>grafana.Client\<close>, an interface) and the failures of the operating
  system and of the document library are arbitrary functions of the history so far and
  of the arguments of the call.
\<close>

record Client =
  GetDashboard :: "world \<Rightarrow> string \<Rightarrow> error + Dashboard"
  GetPanelPng :: "world \<Rightarrow> Panel \<Rightarrow> string \<Rightarrow> TimeRange \<Rightarrow> error + body"

record env =
  MkdirAll_fault :: "world \<Rightarrow> string \<Rightarrow> error option"
  Create_fault :: "world \<Rightarrow> string \<Rightarrow> error option"
  Write_fault :: "world \<Rightarrow> string \<Rightarrow> error option"
  RemoveAll_fault :: "world \<Rightarrow> string \<Rightarrow> (error \<times> string list) option"
  Open_fault :: "world \<Rightarrow> string \<Rightarrow> error option"
  AddTTFFont_fault :: "string \<Rightarrow> string \<Rightarrow> error option"
  SetFont_fault :: "string \<Rightarrow> int \<Rightarrow> error option"
  Image_fault :: "(string \<rightharpoonup> node) \<Rightarrow> string \<Rightarrow> error option"
  WritePdf_fails :: "world \<Rightarrow> string \<Rightarrow> bool"

section \<open>Paths\<close>

subsection \<open>Decimal formatting: the verb \<^verbatim>\<open>%d\<close>\<close>

definition digit_char :: "nat \<Rightarrow> char" where
  "digit_char n = ''0123456789'' ! (n mod 10)"

fun show_nat :: "nat \<Rightarrow> string" where
  "show_nat n = (if n < 10 then [digit_char n] else show_nat (n div 10) @ [digit_char (n mod 10)])"

declare show_nat.simps [simp del]

definition fmt_d :: "int \<Rightarrow> string" where
  "fmt_d i = (if i < 0 then CHR ''-'' # show_nat (nat (- i)) else show_nat (nat i))"

subsection \<open>\<^verbatim>\<open>filepath.Join\<close> and \<^verbatim>\<open>filepath.Clean\<close> on a system with separator \<^verbatim>\<open>/\<close>\<close>

fun split_on :: "char \<Rightarrow> string \<Rightarrow> string list" where
  "split_on c [] = [[]]"
| "split_on c (x # xs) =
     (if x = c then [] # split_on c xs
      else (case split_on c xs of [] \<Rightarrow> [[x]] | y # ys \<Rightarrow> (x # y) # ys))"

fun strings_Join :: "string list \<Rightarrow> string \<Rightarrow> string" where
  "strings_Join [] sep = []"
| "strings_Join [x] sep = x"
| "strings_Join (x # y # ys) sep = x @ sep @ strings_Join (y # ys) sep"

text \<open>
  \<^verbatim>\<open>Clean\<close> reads the path element by element. The state is the number of leading
  \<^verbatim>\<open>..\<close> elements kept so far (only for a path that is not rooted) and the stack of the
  real elements after them, the last one first. An empty element and \<^verbatim>\<open>.\<close> are dropped;
  \<^verbatim>\<open>..\<close> removes the real element before it, is dropped at the root, and is kept
  otherwise.
\<close>

fun clean_elem :: "bool \<Rightarrow> nat \<times> string list \<Rightarrow> string \<Rightarrow> nat \<times> string list" where
  "clean_elem rooted (dd, st) e =
     (if e = [] \<or> e = ''.'' then (dd, st)
      else if e = ''..'' then
        (case st of _ # st' \<Rightarrow> (dd, st')
         | [] \<Rightarrow> if rooted then (dd, []) else (Suc dd, []))
      else (dd, e # st))"

definition clean_out :: "bool \<Rightarrow> nat \<times> string list \<Rightarrow> string" where
  "clean_out rooted s =
     (let body = strings_Join (replicate (fst s) ''..'' @ rev (snd s)) ''/'' in
      if rooted then CHR ''/'' # body else if body = [] then ''.'' else body)"

definition Clean_path :: "string \<Rightarrow> string" where
  "Clean_path path =
     (if path = [] then ''.''
      else let rooted = (hd path = CHR ''/'') in
        clean_out rooted (foldl (clean_elem rooted) (0, []) (split_on CHR ''/'' path)))"

text \<open>
  \<^verbatim>\<open>Join\<close> skips leading empty elements, joins the rest with the separator and cleans
  the result; with no non-empty element it returns the empty string.
\<close>

definition filepath_Join :: "string list \<Rightarrow> string" where
  "filepath_Join elem =
     (case dropWhile (\<lambda>e. e = []) elem of [] \<Rightarrow> [] | es \<Rightarrow> Clean_path (strings_Join es ''/''))"

section \<open>The report\<close>

definition imgDir :: string where
  "imgDir = ''images''"

definition reportPdf :: string where
  "reportPdf = ''report.pdf''"

record report =
  gClient :: Client
  time :: TimeRange
  dashName :: string
  tmpDir :: string

text \<open>\<^verbatim>\<open>uuid.New()\<close> is random; the identifier it returns is the last argument.\<close>

definition new :: "Client \<Rightarrow> string \<Rightarrow> TimeRange \<Rightarrow> string \<Rightarrow> report" where
  "new g dashName' timeRange uuid =
     \<lparr>gClient = g, time = timeRange, dashName = dashName',
      tmpDir = filepath_Join [''tmp'', uuid]\<rparr>"

definition imgDirPath :: "report \<Rightarrow> string" where
  "imgDirPath rep = filepath_Join [tmpDir rep, imgDir]"

definition pdfPath :: "report \<Rightarrow> string" where
  "pdfPath rep = filepath_Join [tmpDir rep, reportPdf]"

definition imgFilePath :: "report \<Rightarrow> Panel \<Rightarrow> string" where
  "imgFilePath rep p =
     (let imgFileName = ''image'' @ fmt_d (ID p) @ ''.png'' in
      filepath_Join [imgDirPath rep, imgFileName])"

text \<open>
  A name that \<^verbatim>\<open>Clean\<close> leaves alone as a last path element, and the part of a joined
  path that comes from the directory.
\<close>

definition simple_name :: "string \<Rightarrow> bool" where
  "simple_name n = (n \<noteq> [] \<and> n \<noteq> ''.'' \<and> n \<noteq> ''..'' \<and> CHR ''/'' \<notin> set n)"

definition dir_prefix :: "string \<Rightarrow> string" where
  "dir_prefix d =
     (if d = [] then []
      else let rooted = (hd d = CHR ''/'');
               s = foldl (clean_elem rooted) (0, []) (split_on CHR ''/'' d);
               xs = replicate (fst s) ''..'' @ rev (snd s)
           in (if rooted then ''/'' else []) @ (if xs = [] then [] else strings_Join xs ''/'' @ ''/''))"

section \<open>Operating system calls\<close>

text \<open>
  The calls of the packages \<^verbatim>\<open>os\<close> and \<^verbatim>\<open>io\<close> that the report makes. Each records its
  event; whether it fails is decided by the environment.
\<close>

definition under :: "string \<Rightarrow> string \<Rightarrow> bool" where
  "under d q = (q = d \<or> prefix (d @ ''/'') q)"

definition path_parents :: "string \<Rightarrow> string list" where
  "path_parents path =
     map (\<lambda>i. take i path) (filter (\<lambda>i. path ! i = CHR ''/'') [1..<length path]) @ [path]"

definition mk_dir :: "(string \<rightharpoonup> node) \<Rightarrow> string \<Rightarrow> (string \<rightharpoonup> node)" where
  "mk_dir m d = (if m d = None then m(d \<mapsto> Dir) else m)"

text \<open>\<^verbatim>\<open>os.MkdirAll\<close> creates the directory and every missing parent.\<close>

definition os_MkdirAll :: "env \<Rightarrow> string \<Rightarrow> world \<Rightarrow> error option \<times> world" where
  "os_MkdirAll en path w =
     (case MkdirAll_fault en w path of
        Some e \<Rightarrow> (Some e, emit (EvMkdirAll path False) w)
      | None \<Rightarrow>
          (None, emit (EvMkdirAll path True) (w\<lparr>fs := foldl mk_dir (fs w) (path_parents path)\<rparr>)))"

text \<open>\<^verbatim>\<open>os.Create\<close> creates or truncates the file; the handle is the path.\<close>

definition os_Create :: "env \<Rightarrow> string \<Rightarrow> world \<Rightarrow> (error + string) \<times> world" where
  "os_Create en path w =
     (case Create_fault en w path of
        Some e \<Rightarrow> (Inl e, emit (EvCreate path False) w)
      | None \<Rightarrow>
          (Inr path, emit (EvCreate path True) (w\<lparr>fs := (fs w)(path \<mapsto> File (Bytes []))\<rparr>)))"

text \<open>
  \<^verbatim>\<open>io.Copy(file, body)\<close> writes what the body delivers until its end or its read
  error; a write failure stops it before anything is written.
\<close>

definition io_Copy :: "env \<Rightarrow> string \<Rightarrow> body \<Rightarrow> world \<Rightarrow> error option \<times> world" where
  "io_Copy en file b w =
     (case Write_fault en w file of
        Some e \<Rightarrow> (Some e, emit (EvCopy file False) w)
      | None \<Rightarrow>
          (let w' = w\<lparr>fs := (fs w)(file \<mapsto> File (Bytes (data b)))\<rparr> in
           case read_err b of
             Some e \<Rightarrow> (Some e, emit (EvCopy file False) w')
           | None \<Rightarrow> (None, emit (EvCopy file True) w')))"

definition body_Close :: "Panel \<Rightarrow> world \<Rightarrow> world" where
  "body_Close p w = emit (EvBodyClose p) w"

definition file_Close :: "string \<Rightarrow> world \<Rightarrow> world" where
  "file_Close path w = emit (EvFileClose path) w"

text \<open>
  \<^verbatim>\<open>os.RemoveAll\<close> removes the path and everything under it. Whether it fails is
  decided by the environment, also when the path does not exist (a parent that is a
  regular file makes the call fail with \<^verbatim>\<open>ENOTDIR\<close>). Without a failure it returns nil:
  after removing the path and all below it, or at once when the path does not exist.
  When it fails it has removed what it could: the environment names the error and the
  paths left behind. Nothing is removed when the path does not exist.
\<close>

definition os_RemoveAll :: "env \<Rightarrow> string \<Rightarrow> world \<Rightarrow> error option \<times> world" where
  "os_RemoveAll en path w =
     (case RemoveAll_fault en w path of
        None \<Rightarrow>
          (None, emit (EvRemoveAll path)
                   (if fs w path = None then w
                    else w\<lparr>fs := (\<lambda>q. if under path q then None else fs w q)\<rparr>))
      | Some (e, keep) \<Rightarrow>
          (Some e, emit (EvRemoveAll path)
                     (if fs w path = None then w
                      else w\<lparr>fs := (\<lambda>q. if under path q \<and> q \<notin> set keep then None
                                       else fs w q)\<rparr>)))"

record os_File =
  name :: string
  opened :: node

definition os_Open :: "env \<Rightarrow> string \<Rightarrow> world \<Rightarrow> (error + os_File) \<times> world" where
  "os_Open en path w =
     (case Open_fault en w path of
        Some e \<Rightarrow> (Inl e, emit (EvOpen path False) w)
      | None \<Rightarrow>
          (case fs w path of
             None \<Rightarrow> (Inl (ExtError ''no such file or directory''), emit (EvOpen path False) w)
           | Some n \<Rightarrow> (Inr \<lparr>name = path, opened = n\<rparr>, emit (EvOpen path True) w)))"

section \<open>The document library\<close>

text \<open>
  The library \<^verbatim>\<open>gopdf\<close> is a collaborator outside the repository, modelled by the
  interface the report uses. It accepts draw commands (add page, position the cursor, place text, place an image
  within a rectangle) and serialises them; adding a font, selecting a font and placing an
  image can fail, finalising has no error result. A draw command goes to the current
  page, the last one added; before the first page there is none and the command is lost.
\<close>

record GoPdf =
  pageSize :: rect
  fonts :: "(string \<times> string) list"
  curFont :: "(string \<times> int) option"
  pages :: "page list"

definition gopdf_Start :: "rect \<Rightarrow> GoPdf" where
  "gopdf_Start sz = \<lparr>pageSize = sz, fonts = [], curFont = None, pages = []\<rparr>"

definition AddTTFFont :: "env \<Rightarrow> string \<Rightarrow> string \<Rightarrow> GoPdf \<Rightarrow> error option \<times> GoPdf" where
  "AddTTFFont en family ttfPath pdf =
     (case AddTTFFont_fault en family ttfPath of
        Some e \<Rightarrow> (Some e, pdf)
      | None \<Rightarrow> (None, pdf\<lparr>fonts := fonts pdf @ [(family, ttfPath)]\<rparr>))"

definition SetFont :: "env \<Rightarrow> string \<Rightarrow> int \<Rightarrow> GoPdf \<Rightarrow> error option \<times> GoPdf" where
  "SetFont en family sz pdf =
     (case SetFont_fault en family sz of
        Some e \<Rightarrow> (Some e, pdf)
      | None \<Rightarrow> (None, pdf\<lparr>curFont := Some (family, sz)\<rparr>))"

definition AddPage :: "GoPdf \<Rightarrow> GoPdf" where
  "AddPage pdf = pdf\<lparr>pages := pages pdf @ [[]]\<rparr>"

definition put :: "draw \<Rightarrow> GoPdf \<Rightarrow> GoPdf" where
  "put d pdf =
     (if pages pdf = [] then pdf
      else pdf\<lparr>pages := butlast (pages pdf) @ [last (pages pdf) @ [d]]\<rparr>)"

text \<open>Placing an image reads the file; whether that fails depends on the file system.\<close>

definition gopdf_Image ::
  "env \<Rightarrow> (string \<rightharpoonup> node) \<Rightarrow> string \<Rightarrow> float64 \<Rightarrow> float64 \<Rightarrow> rect \<Rightarrow> GoPdf \<Rightarrow>
   error option \<times> GoPdf" where
  "gopdf_Image en files path x y r pdf =
     (case Image_fault en files path of
        Some e \<Rightarrow> (Some e, pdf)
      | None \<Rightarrow> (None, put (Image path x y r) pdf))"

definition WritePdf :: "env \<Rightarrow> string \<Rightarrow> GoPdf \<Rightarrow> world \<Rightarrow> world" where
  "WritePdf en path pdf w =
     (if WritePdf_fails en w path then emit (EvWritePdf path) w
      else emit (EvWritePdf path) (w\<lparr>fs := (fs w)(path \<mapsto> File (PdfDoc (pages pdf)))\<rparr>))"

section \<open>Report generation\<close>

subsection \<open>\<^verbatim>\<open>Clean\<close>\<close>


subsection \<open>\<^verbatim>\<open>renderPNG\<close>\<close>

text \<open>
  The two \<^verbatim>\<open>defer\<close> statements run at every return after them, the later one first:
  the file is closed, then the body. The source discards what the two \<^verbatim>\<open>Close\<close> calls
  return, so the model records the calls and nothing else. A call of \<^verbatim>\<open>renderPNG\<close> fails
  when the request, the creation of the file or the copy fails.
\<close>

definition renderPNG :: "env \<Rightarrow> report \<Rightarrow> Panel \<Rightarrow> world \<Rightarrow> error option \<times> world" where
  "renderPNG en rep p w =
     (case GetPanelPng (gClient rep) w p (dashName rep) (time rep) of
        Inl err \<Rightarrow>
          (Some (Errorf ''getting panel %+v error: %v'' [APanel p, AErr err]),
           emit (EvGetPanelPng p False) w)
      | Inr b \<Rightarrow>
          (let w1 = emit (EvGetPanelPng p True) w;
               imgPath = imgFilePath rep p
           in case os_Create en imgPath w1 of
                (Inl err, w2) \<Rightarrow>
                  (Some (Errorf ''creating image file %s error: %v'' [AStr imgPath, AErr err]),
                   body_Close p w2)
              | (Inr file, w2) \<Rightarrow>
                  (case io_Copy en file b w2 of
                     (Some err, w3) \<Rightarrow>
                       (Some (Errorf ''copying body to file error: %v'' [AErr err]),
                        body_Close p (file_Close file w3))
                   | (None, w3) \<Rightarrow> (None, body_Close p (file_Close file w3)))))"

subsection \<open>\<^verbatim>\<open>renderPNGsParallel\<close>\<close>

text \<open>
  Each worker goroutine is at one of six places: not yet started by the \<^verbatim>\<open>go\<close>
  statement, about to receive from \<^verbatim>\<open>panels\<close>, about to call \<^verbatim>\<open>renderPNG\<close>, about to
  log the error it got, about to send it on \<^verbatim>\<open>errs\<close>, or finished (after the deferred
  \<^verbatim>\<open>wg.Done()\<close>).
\<close>

datatype wstate = WNew | WRecv | WRender Panel | WLog Panel error | WSend error | WDone

text \<open>
  The shared state of the stage: the two buffered channels (the first one already
  filled and closed), the capacity of \<^verbatim>\<open>errs\<close>, the counter of the wait group, the
  variable \<^verbatim>\<open>i\<close> of the loop that starts the workers (\<open>launched\<close>), the place of every
  worker, and the world.
\<close>

record pool =
  panels_ch :: "Panel list"
  errs_ch :: "error option list"
  errs_cap :: nat
  wg :: int
  launched :: nat
  ws :: "wstate list"
  pw :: world

definition workers :: nat where
  "workers = 5"

text \<open>The state after \<^verbatim>\<open>wg.Add(workers)\<close>, before the first \<^verbatim>\<open>go\<close> statement.\<close>

definition pool_init :: "Dashboard \<Rightarrow> world \<Rightarrow> pool" where
  "pool_init dash w =
     \<lparr>panels_ch = Panels dash, errs_ch = [], errs_cap = length (Panels dash),
      wg = int workers, launched = 0, ws = replicate workers WNew, pw = w\<rparr>"

text \<open>One pass of the loop \<^verbatim>\<open>for i := 0; i < workers; i++\<close>: the next worker is started.\<close>

definition launch :: "pool \<Rightarrow> pool" where
  "launch s =
     s\<lparr>ws := (ws s)[launched s := WRecv], launched := Suc (launched s),
       pw := emit (EvGo (launched s)) (pw s)\<rparr>"

text \<open>
  One step of worker \<open>i\<close>. Receiving from the closed channel never blocks: it yields the
  next panel, or ends the loop when the channel is empty, and then the deferred
  \<^verbatim>\<open>wg.Done()\<close> runs. Sending on \<^verbatim>\<open>errs\<close> blocks while the buffer is full.
\<close>

definition wstep :: "env \<Rightarrow> report \<Rightarrow> nat \<Rightarrow> pool \<Rightarrow> pool" where
  "wstep en rep i s =
     (case ws s ! i of
        WNew \<Rightarrow> s
      | WRecv \<Rightarrow>
          (case panels_ch s of
             [] \<Rightarrow> s\<lparr>ws := (ws s)[i := WDone], wg := wg s - 1, pw := emit (EvWgDone i) (pw s)\<rparr>
           | p # ps \<Rightarrow> s\<lparr>panels_ch := ps, ws := (ws s)[i := WRender p]\<rparr>)
      | WRender p \<Rightarrow>
          (case renderPNG en rep p (pw s) of
             (None, w') \<Rightarrow> s\<lparr>pw := w', ws := (ws s)[i := WRecv]\<rparr>
           | (Some err, w') \<Rightarrow> s\<lparr>pw := w', ws := (ws s)[i := WLog p err]\<rparr>)
      | WLog p err \<Rightarrow>
          s\<lparr>pw := log_Errorf ''creating image for panel ID %d error: %v'' [AInt (ID p), AErr err] (pw s),
            ws := (ws s)[i := WSend err]\<rparr>
      | WSend err \<Rightarrow>
          (if length (errs_ch s) < errs_cap s
           then s\<lparr>errs_ch := errs_ch s @ [Some err], ws := (ws s)[i := WRecv]\<rparr>
           else s)
      | WDone \<Rightarrow> s)"

text \<open>
  The actors of the stage are the workers, numbered from 0, and the goroutine that
  called \<^verbatim>\<open>renderPNGsParallel\<close>, which has the next number. The caller can move while it
  has workers to start; then it waits in \<^verbatim>\<open>wg.Wait()\<close>.
\<close>

definition enabled :: "pool \<Rightarrow> nat \<Rightarrow> bool" where
  "enabled s i =
     (if i = length (ws s) then launched s < workers
      else case ws s ! i of
             WNew \<Rightarrow> False
           | WDone \<Rightarrow> False
           | WSend err \<Rightarrow> length (errs_ch s) < errs_cap s
           | _ \<Rightarrow> True)"

definition runnable :: "pool \<Rightarrow> nat list" where
  "runnable s = filter (enabled s) [0..<Suc (length (ws s))]"

definition step :: "env \<Rightarrow> report \<Rightarrow> nat \<Rightarrow> pool \<Rightarrow> pool" where
  "step en rep i s = (if i = length (ws s) then launch s else wstep en rep i s)"

text \<open>
  The Go scheduler is free to run any actor that can move. A schedule is a list of
  numbers; each step consumes one and runs the actor it selects among those that can
  move (the first of them once the list is used up). The stage runs until no actor can
  move.
\<close>

definition pick :: "nat list \<Rightarrow> nat list \<Rightarrow> nat" where
  "pick sched en = en ! ((case sched of [] \<Rightarrow> 0 | h # _ \<Rightarrow> h) mod length en)"

fun wweight :: "wstate \<Rightarrow> nat" where
  "wweight WNew = 0"
| "wweight WDone = 0"
| "wweight WRecv = 1"
| "wweight (WSend e) = 2"
| "wweight (WLog p e) = 3"
| "wweight (WRender p) = 4"

definition pool_measure :: "pool \<Rightarrow> nat" where
  "pool_measure s =
     4 * length (panels_ch s) + sum_list (map wweight (ws s)) + 2 * (workers - launched s)"

function run :: "env \<Rightarrow> report \<Rightarrow> nat list \<Rightarrow> pool \<Rightarrow> pool" where
  "run en rep sched s =
     (if runnable s = [] then s
      else run en rep (tl sched) (step en rep (pick sched (runnable s)) s))"
  by pat_completeness auto
termination
proof (relation "measure (\<lambda>(en, rep, sched, s). pool_measure s)")
  show "wf (measure (\<lambda>(en, rep, sched, s). pool_measure s))"
    by simp
next
  fix en :: env and rep :: report and sched :: "nat list" and s :: pool
  assume ne: "runnable s \<noteq> []"
  define i where "i = pick sched (runnable s)"
  have "i \<in> set (runnable s)"
    unfolding i_def pick_def using ne by (intro nth_mem) simp
  then have il: "i \<le> length (ws s)" and ie: "enabled s i"
    by (simp_all add: runnable_def del: upt_Suc)
  have upd: "sum_list (map wweight ((ws s)[k := v])) + wweight (ws s ! k) =
             sum_list (map wweight (ws s)) + wweight v" if "k < length (ws s)" for k v
  proof -
    have "wweight (ws s ! k) \<le> sum_list (map wweight (ws s))"
      using that by (intro member_le_sum_list) simp_all
    then show ?thesis
      using that by (simp add: map_update sum_list_update)
  qed
  have "pool_measure (step en rep i s) < pool_measure s"
  proof (cases "i = length (ws s)")
    case True
    with ie have l: "launched s < workers"
      by (simp add: enabled_def)
    have "sum_list (map wweight ((ws s)[launched s := WRecv])) \<le> sum_list (map wweight (ws s)) + 1"
    proof (cases "launched s < length (ws s)")
      case lt: True
      from upd[OF lt, of WRecv] show ?thesis by simp
    next
      case False
      then have "(ws s)[launched s := WRecv] = ws s" by (intro list_update_beyond) simp
      then show ?thesis by simp
    qed
    with True l show ?thesis
      by (simp add: step_def launch_def pool_measure_def)
  next
    case False
    with il have lt: "i < length (ws s)" by simp
    have st: "step en rep i s = wstep en rep i s"
      using False by (simp add: step_def)
    show ?thesis
    proof (cases "ws s ! i")
      case WNew
      then show ?thesis
        using ie False by (simp add: enabled_def)
    next
      case WRecv
      then show ?thesis
        unfolding st using upd[OF lt, of WDone] upd[OF lt, of "WRender (hd (panels_ch s))"]
        by (cases "panels_ch s") (simp_all add: wstep_def pool_measure_def)
    next
      case (WRender p)
      then show ?thesis
        unfolding st
        using upd[OF lt, of WRecv] upd[OF lt, of "WLog p (the (fst (renderPNG en rep p (pw s))))"]
        by (cases "renderPNG en rep p (pw s)"; cases "fst (renderPNG en rep p (pw s))")
           (simp_all add: wstep_def pool_measure_def)
    next
      case (WLog p e)
      then show ?thesis
        unfolding st using upd[OF lt, of "WSend e"] by (simp add: wstep_def pool_measure_def)
    next
      case (WSend e)
      then show ?thesis
        unfolding st using upd[OF lt, of WRecv] ie False
        by (simp add: wstep_def pool_measure_def enabled_def)
    next
      case WDone
      then show ?thesis
        using ie False by (simp add: enabled_def)
    qed
  qed
  then show "((en, rep, tl sched, step en rep (pick sched (runnable s)) s),
              (en, rep, sched, s)) \<in> measure (\<lambda>(en, rep, sched, s). pool_measure s)"
    by (simp add: i_def)
qed

declare run.simps [simp del]

text \<open>
  The loop that reads \<^verbatim>\<open>errs\<close> after it is closed returns the first value that is not
  nil.
\<close>

fun drain :: "error option list \<Rightarrow> error option" where
  "drain [] = None"
| "drain (err # rest) = (case err of Some e \<Rightarrow> Some e | None \<Rightarrow> drain rest)"

text \<open>
  \<^verbatim>\<open>wg.Wait()\<close> returns when the counter is zero. When all actors have stopped with
  the counter not at zero the call never returns, which is the result \<open>None\<close>.
\<close>

definition renderPNGsParallel ::
  "env \<Rightarrow> report \<Rightarrow> nat list \<Rightarrow> Dashboard \<Rightarrow> world \<Rightarrow> (error option \<times> world) option" where
  "renderPNGsParallel en rep sched dash w =
     (let s = run en rep sched (pool_init dash w) in
      if wg s = 0 then Some (drain (errs_ch s), pw s) else None)"

subsection \<open>\<^verbatim>\<open>renderPDF\<close>\<close>

text \<open>
  The package variables \<^verbatim>\<open>cfg\<close> (the global configuration) and \<^verbatim>\<open>FontDir\<close> are
  arguments. \<^verbatim>\<open>errors.Wrap\<close> of a nil error is nil, so the last line of \<^verbatim>\<open>renderPDF\<close>
  returns the opened file alone when opening succeeded.
\<close>

definition NewPDF :: "env \<Rightarrow> Config \<Rightarrow> string \<Rightarrow> world \<Rightarrow> (error + GoPdf) \<times> world" where
  "NewPDF en cfg FontDir w =
     (let pdf = gopdf_Start (Rect_at cfg ''page'');
          ttfPath = FontDir @ Ttf (Font cfg)
      in case AddTTFFont en (Family (Font cfg)) ttfPath pdf of
           (Some err, _) \<Rightarrow>
             (Inl (Wrap err ''add ttf font''), log_Errorf ''add ttf font error: %v'' [AErr err] w)
         | (None, pdf1) \<Rightarrow>
             (case SetFont en (Family (Font cfg)) (Size (Font cfg)) pdf1 of
                (Some err, _) \<Rightarrow>
                  (Inl (Wrap err ''set font''), log_Errorf ''set font error: %v'' [AErr err] w)
              | (None, pdf2) \<Rightarrow> (Inr pdf2, w)))"

definition createHomePage :: "Config \<Rightarrow> report \<Rightarrow> Dashboard \<Rightarrow> GoPdf \<Rightarrow> GoPdf" where
  "createHomePage cfg rep dash pdf =
     put (Cell (FromFormatted (time rep) @ '' to '' @ ToFormatted (time rep)))
       (put (SetX (X (Position cfg)))
         (put (DrawBr (Br (Position cfg)))
           (put (Cell (''Dashboard: '' @ DashTitle dash))
             (put (SetX (X (Position cfg)))
               (AddPage pdf)))))"

definition panel_title :: "Panel \<Rightarrow> string" where
  "panel_title p = ''Row: '' @ RowTitle p @ '', Panel: '' @ Title p"

text \<open>
  The body of the loop over the panels, on the document, the world and the counter.
\<close>

definition place_panel ::
  "env \<Rightarrow> Config \<Rightarrow> report \<Rightarrow> Panel \<Rightarrow> GoPdf \<times> world \<times> int \<Rightarrow> GoPdf \<times> world \<times> int" where
  "place_panel en cfg rep p st =
     (case st of (pdf, w, cnt) \<Rightarrow>
        let imgPath = imgFilePath rep p;
            rect = (if IsSingleStat p then Rect_at cfg ''singlestat'' else Rect_at cfg ''graph'');
            (err, pdf') =
              (if cnt mod 2 = 0 then
                 gopdf_Image en (fs w) imgPath (X (Position cfg)) (ImageY1 (Position cfg)) rect
                   (put (Cell (panel_title p))
                     (put (SetY (TitleY1 (Position cfg)))
                       (put (SetX (X (Position cfg))) pdf)))
               else
                 (case gopdf_Image en (fs w) imgPath (X (Position cfg)) (ImageY2 (Position cfg)) rect
                         (put (Cell (panel_title p))
                           (put (SetY (TitleY2 (Position cfg)))
                             (put (SetX (X (Position cfg))) pdf))) of
                    (e, pdf1) \<Rightarrow> (e, AddPage pdf1)));
            w' = (case err of
                    Some e \<Rightarrow> log_Errorf ''rendering image %s to PDF error: %v'' [AStr imgPath, AErr e] w
                  | None \<Rightarrow> log_Infof ''rendering image to PDF: %s'' [AStr imgPath] w)
        in (pdf', w', cnt + 1))"

fun place_panels ::
  "env \<Rightarrow> Config \<Rightarrow> report \<Rightarrow> Panel list \<Rightarrow> GoPdf \<times> world \<times> int \<Rightarrow> GoPdf \<times> world \<times> int" where
  "place_panels en cfg rep [] st = st"
| "place_panels en cfg rep (p # ps) st = place_panels en cfg rep ps (place_panel en cfg rep p st)"

definition renderPDF ::
  "env \<Rightarrow> Config \<Rightarrow> string \<Rightarrow> report \<Rightarrow> Dashboard \<Rightarrow> world \<Rightarrow> (error + os_File) \<times> world" where
  "renderPDF en cfg FontDir rep dash w =
     (let w0 = log_Infof ''PDF templates config: %+v\<newline>'' [ACfg cfg] w in
      case NewPDF en cfg FontDir w0 of
        (Inl err, w1) \<Rightarrow> (Inl (Wrap err ''new pdf file''), w1)
      | (Inr pdf, w1) \<Rightarrow>
          (case place_panels en cfg rep (Panels dash) (createHomePage cfg rep dash pdf, w1, 0) of
             (pdf', w2, cnt) \<Rightarrow>
               (case os_Open en (pdfPath rep) (WritePdf en (pdfPath rep) pdf' w2) of
                  (Inl err, w3) \<Rightarrow> (Inl (Wrap err ''open pdf file''), w3)
                | (Inr outputPDF, w3) \<Rightarrow> (Inr outputPDF, w3))))"

subsection \<open>\<^verbatim>\<open>Generate\<close>\<close>

definition Generate ::
  "env \<Rightarrow> Config \<Rightarrow> string \<Rightarrow> report \<Rightarrow> nat list \<Rightarrow> world \<Rightarrow> ((error + os_File) \<times> world) option" where
  "Generate en cfg FontDir rep sched w =
     (let w0 = emit (EvGetDashboard (dashName rep)) w in
      case GetDashboard (gClient rep) w (dashName rep) of
        Inl err \<Rightarrow>
          Some (Inl (Errorf ''fetching dashboard %s error: %v'' [AStr (dashName rep), AErr err]), w0)
      | Inr dash \<Rightarrow>
          (case os_MkdirAll en (imgDirPath rep) w0 of
             (Some err, w1) \<Rightarrow>
               Some (Inl (Errorf ''creating image directory %s error: %v''
                            [AStr (imgDirPath rep), AErr err]), w1)
           | (None, w1) \<Rightarrow>
               (case renderPNGsParallel en rep sched dash w1 of
                  None \<Rightarrow> None
                | Some (Some err, w2) \<Rightarrow>
                    Some (Inl (Errorf ''rendering PNGs in parallel for dash %+v error: %v. It is recommended to select time range within 6 hours on the Dashboard. Otherwise, the grafana timeout problem might occur.''
                                 [ADash dash, AErr err]), w2)
                | Some (None, w2) \<Rightarrow>
                    (case renderPDF en cfg FontDir rep dash w2 of
                       (Inl err, w3) \<Rightarrow>
                         Some (Inl (Errorf ''rendering pdf for dash %+v error: %v''
                                      [ADash dash, AErr err]), w3)
                     | (Inr pdf, w3) \<Rightarrow> Some (Inr pdf, w3)))))"

section \<open>The layout of the document\<close>

text \<open>
  What the draw commands of \<^verbatim>\<open>createHomePage\<close> and of one pass of the loop of
  \<^verbatim>\<open>renderPDF\<close> put on the current page. The pass with counter \<open>c\<close> uses the upper
  offsets when \<open>c\<close> is even and the lower ones when it is odd; the image command is
  there when placing the image did not fail.
\<close>

definition home_draws :: "Config \<Rightarrow> report \<Rightarrow> Dashboard \<Rightarrow> page" where
  "home_draws cfg rep dash =
     [SetX (X (Position cfg)), Cell (''Dashboard: '' @ DashTitle dash),
      DrawBr (Br (Position cfg)), SetX (X (Position cfg)),
      Cell (FromFormatted (time rep) @ '' to '' @ ToFormatted (time rep))]"

definition title_draws :: "Config \<Rightarrow> nat \<Rightarrow> Panel \<Rightarrow> draw list" where
  "title_draws cfg c p =
     [SetX (X (Position cfg)),
      SetY (if c mod 2 = 0 then TitleY1 (Position cfg) else TitleY2 (Position cfg)),
      Cell (panel_title p)]"

definition image_draws ::
  "env \<Rightarrow> Config \<Rightarrow> report \<Rightarrow> (string \<rightharpoonup> node) \<Rightarrow> nat \<Rightarrow> Panel \<Rightarrow> draw list" where
  "image_draws en cfg rep files c p =
     (case Image_fault en files (imgFilePath rep p) of
        Some e \<Rightarrow> []
      | None \<Rightarrow>
          [Image (imgFilePath rep p) (X (Position cfg))
             (if c mod 2 = 0 then ImageY1 (Position cfg) else ImageY2 (Position cfg))
             (if IsSingleStat p then Rect_at cfg ''singlestat'' else Rect_at cfg ''graph'')])"

definition slot_draws ::
  "env \<Rightarrow> Config \<Rightarrow> report \<Rightarrow> (string \<rightharpoonup> node) \<Rightarrow> nat \<Rightarrow> Panel \<Rightarrow> draw list" where
  "slot_draws en cfg rep files c p = title_draws cfg c p @ image_draws en cfg rep files c p"

fun slots ::
  "env \<Rightarrow> Config \<Rightarrow> report \<Rightarrow> (string \<rightharpoonup> node) \<Rightarrow> nat \<Rightarrow> Panel list \<Rightarrow> draw list list" where
  "slots en cfg rep files c [] = []"
| "slots en cfg rep files c (p # ps) =
     slot_draws en cfg rep files c p # slots en cfg rep files (Suc c) ps"

text \<open>The log line of one pass of the loop.\<close>

definition place_log :: "env \<Rightarrow> report \<Rightarrow> (string \<rightharpoonup> node) \<Rightarrow> Panel \<Rightarrow> event" where
  "place_log en rep files p =
     (case Image_fault en files (imgFilePath rep p) of
        Some e \<Rightarrow> EvLog LError ''rendering image %s to PDF error: %v'' [AStr (imgFilePath rep p), AErr e]
      | None \<Rightarrow> EvLog LInfo ''rendering image to PDF: %s'' [AStr (imgFilePath rep p)])"

text \<open>
  Pages filled two slots at a time, starting on a page that already has content, with a
  new page begun after every second slot.
\<close>

fun paginate :: "page \<Rightarrow> draw list list \<Rightarrow> page list" where
  "paginate cur [] = [cur]"
| "paginate cur [a] = [cur @ a]"
| "paginate cur (a # b # rest) = (cur @ a @ b) # paginate [] rest"

text \<open>The pages of the document behind a result of \<^verbatim>\<open>renderPDF\<close>, if it is one.\<close>

definition doc_pages :: "error + os_File \<Rightarrow> page list option" where
  "doc_pages r =
     (case r of
        Inr f \<Rightarrow> (case opened f of File (PdfDoc pgs) \<Rightarrow> Some pgs | _ \<Rightarrow> None)
      | Inl e \<Rightarrow> None)"

text \<open>
  The page count and the place of a panel as the specification words them: one cover
  page plus one page per two panels, rounding up; panel \<open>i\<close> in band \<open>i mod 2\<close> on panel
  page \<open>1 + i div 2\<close>, the cover being page 1 of the document.
\<close>

definition spec_page_count :: "nat \<Rightarrow> nat" where
  "spec_page_count n = 1 + (n + 1) div 2"

definition spec_cover_page :: "Config \<Rightarrow> report \<Rightarrow> Dashboard \<Rightarrow> page" where
  "spec_cover_page cfg rep dash = home_draws cfg rep dash"

text \<open>
  A draw command that is on the page also when images fail to be placed: every command
  except the image of a file whose placement fails.
\<close>

definition placed :: "env \<Rightarrow> (string \<rightharpoonup> node) \<Rightarrow> draw \<Rightarrow> bool" where
  "placed en files d =
     (case d of Image path x y r \<Rightarrow> Image_fault en files path = None | _ \<Rightarrow> True)"

section \<open>What the fetch stage has done\<close>

text \<open>
  Read off a list of events: the panels requested; the paths of the completed copies;
  the paths of the images whose request, creation or copy failed; the identifiers and
  errors of the log lines of the workers; the workers started and the workers that ran
  their \<^verbatim>\<open>wg.Done()\<close>; and the events that are neither of the last two.
\<close>

definition fetched_of :: "event list \<Rightarrow> Panel list" where
  "fetched_of es = concat (map (\<lambda>e. case e of EvGetPanelPng p ok \<Rightarrow> [p] | _ \<Rightarrow> []) es)"

definition written_of :: "event list \<Rightarrow> string list" where
  "written_of es =
     concat (map (\<lambda>e. case e of EvCopy path ok \<Rightarrow> (if ok then [path] else []) | _ \<Rightarrow> []) es)"

definition failed_paths :: "report \<Rightarrow> event list \<Rightarrow> string list" where
  "failed_paths rep es =
     concat (map (\<lambda>e. case e of
                         EvGetPanelPng p ok \<Rightarrow> (if ok then [] else [imgFilePath rep p])
                       | EvCreate path ok \<Rightarrow> (if ok then [] else [path])
                       | EvCopy path ok \<Rightarrow> (if ok then [] else [path])
                       | _ \<Rightarrow> []) es)"

fun logged_ev :: "event \<Rightarrow> (int \<times> error) list" where
  "logged_ev (EvLog LError f [AInt i, AErr x]) =
     (if f = ''creating image for panel ID %d error: %v'' then [(i, x)] else [])"
| "logged_ev _ = []"

definition logged_of :: "event list \<Rightarrow> (int \<times> error) list" where
  "logged_of es = concat (map logged_ev es)"

definition go_of :: "event list \<Rightarrow> nat list" where
  "go_of es = concat (map (\<lambda>e. case e of EvGo i \<Rightarrow> [i] | _ \<Rightarrow> []) es)"

definition done_of :: "event list \<Rightarrow> nat list" where
  "done_of es = concat (map (\<lambda>e. case e of EvWgDone i \<Rightarrow> [i] | _ \<Rightarrow> []) es)"

definition work_of :: "event list \<Rightarrow> event list" where
  "work_of es = filter (\<lambda>e. case e of EvGo i \<Rightarrow> False | EvWgDone i \<Rightarrow> False | _ \<Rightarrow> True) es"

text \<open>The path of the image of the panel with a given identifier.\<close>

definition imgFilePath_of_ID :: "report \<Rightarrow> int \<Rightarrow> string" where
  "imgFilePath_of_ID rep i = filepath_Join [imgDirPath rep, ''image'' @ fmt_d i @ ''.png'']"

text \<open>
  What a worker holds at its place: the panel it is about to render, the failure it has
  still to log, the error it has still to send.
\<close>

fun in_flight :: "wstate \<Rightarrow> Panel multiset" where
  "in_flight (WRender p) = {#p#}"
| "in_flight _ = {#}"

fun unlogged :: "wstate \<Rightarrow> (int \<times> error) multiset" where
  "unlogged (WLog p e) = {#(ID p, e)#}"
| "unlogged _ = {#}"

fun owed :: "wstate \<Rightarrow> error option multiset" where
  "owed (WSend e) = {#Some e#}"
| "owed _ = {#}"

text \<open>The events since the stage started in the world \<open>w0\<close>.\<close>

definition since :: "world \<Rightarrow> pool \<Rightarrow> event list" where
  "since w0 s = drop (length (evs w0)) (evs (pw s))"

text \<open>
  The invariants of the stage, for the dashboard \<open>dash\<close> and the world \<open>w0\<close> it started
  in. The pool has its five places, those from \<open>launched\<close> on not yet started, and the
  counter of the wait group counts the workers not finished; a worker has finished only
  after the channel of panels was empty.
\<close>

definition inv_pool :: "Dashboard \<Rightarrow> pool \<Rightarrow> bool" where
  "inv_pool dash s =
     (length (ws s) = workers \<and>
      wg s = int (size (filter_mset (\<lambda>x. x \<noteq> WDone) (mset (ws s)))) \<and>
      errs_cap s = length (Panels dash) \<and>
      (WDone \<in> set (ws s) \<longrightarrow> panels_ch s = []) \<and>
      launched s \<le> workers \<and>
      (\<forall>k<workers. (ws s ! k = WNew) = (launched s \<le> k)))"

text \<open>Events are only added.\<close>

definition inv_prefix :: "world \<Rightarrow> pool \<Rightarrow> bool" where
  "inv_prefix w0 s = (evs (pw s) = evs w0 @ since w0 s)"

text \<open>Every panel of the dashboard is in the channel, with a worker, or requested.\<close>

definition inv_panels :: "Dashboard \<Rightarrow> world \<Rightarrow> pool \<Rightarrow> bool" where
  "inv_panels dash w0 s =
     (mset (fetched_of (since w0 s)) + sum_mset (image_mset in_flight (mset (ws s))) +
        mset (panels_ch s) =
      mset (Panels dash))"

text \<open>Every request ended in a completed copy or in a failure, at the path of its panel.\<close>

definition inv_paths :: "report \<Rightarrow> world \<Rightarrow> pool \<Rightarrow> bool" where
  "inv_paths rep w0 s =
     (mset (written_of (since w0 s)) + mset (failed_paths rep (since w0 s)) =
      image_mset (imgFilePath rep) (mset (fetched_of (since w0 s))))"

text \<open>Every failure is logged with the identifier of its panel, or about to be.\<close>

definition inv_log :: "report \<Rightarrow> world \<Rightarrow> pool \<Rightarrow> bool" where
  "inv_log rep w0 s =
     (image_mset (\<lambda>(i, e). imgFilePath_of_ID rep i)
        (mset (logged_of (since w0 s)) + sum_mset (image_mset unlogged (mset (ws s)))) =
      mset (failed_paths rep (since w0 s)))"

text \<open>Every error logged is on the channel of errors, or about to be sent.\<close>

definition inv_errs :: "world \<Rightarrow> pool \<Rightarrow> bool" where
  "inv_errs w0 s =
     (mset (errs_ch s) + sum_mset (image_mset owed (mset (ws s))) =
      image_mset (\<lambda>(i, e). Some e) (mset (logged_of (since w0 s))))"

text \<open>
  The workers were started in order, and the workers that ran \<^verbatim>\<open>wg.Done()\<close> are those
  that have finished, once each.
\<close>

definition inv_life :: "world \<Rightarrow> pool \<Rightarrow> bool" where
  "inv_life w0 s =
     (go_of (since w0 s) = [0..<launched s] \<and>
      (\<forall>k<length (ws s). count_list (done_of (since w0 s)) k = (if ws s ! k = WDone then 1 else 0)) \<and>
      set (done_of (since w0 s)) \<subseteq> {..<length (ws s)})"

definition inv_all :: "report \<Rightarrow> Dashboard \<Rightarrow> world \<Rightarrow> pool \<Rightarrow> bool" where
  "inv_all rep dash w0 s =
     (inv_pool dash s \<and> inv_prefix w0 s \<and> inv_panels dash w0 s \<and> inv_paths rep w0 s \<and>
      inv_log rep w0 s \<and> inv_errs w0 s \<and> inv_life w0 s)"

text \<open>The state of the stage on a dashboard without panels: nothing is fetched.\<close>

definition inv_idle :: "world \<Rightarrow> pool \<Rightarrow> bool" where
  "inv_idle w0 s =
     (inv_prefix w0 s \<and> panels_ch s = [] \<and> set (ws s) \<subseteq> {WNew, WRecv, WDone} \<and>
      fs (pw s) = fs w0 \<and> errs_ch s = [] \<and> work_of (since w0 s) = [])"

text \<open>An environment and a service in which nothing about the panel \<open>p\<close> fails.\<close>

definition fetch_ok :: "env \<Rightarrow> report \<Rightarrow> Panel \<Rightarrow> bool" where
  "fetch_ok en rep p =
     (\<forall>w. (\<exists>b. GetPanelPng (gClient rep) w p (dashName rep) (time rep) = Inr b \<and> read_err b = None) \<and>
          Create_fault en w (imgFilePath rep p) = None \<and>
          Write_fault en w (imgFilePath rep p) = None)"

text \<open>
  The file of the panel \<open>p\<close> holds the image delivered: among the events \<open>es\<close> added to
  the world \<open>w0\<close> there is a successful request for a panel with the identifier of \<open>p\<close>,
  and the file at the path of \<open>p\<close> holds the bytes of the body that the service returned
  to that request, made after the events before it.
\<close>

definition delivered :: "report \<Rightarrow> world \<Rightarrow> event list \<Rightarrow> (string \<rightharpoonup> node) \<Rightarrow> Panel \<Rightarrow> bool" where
  "delivered rep w0 es files p =
     (\<exists>k q w1 b. k < length es \<and> es ! k = EvGetPanelPng q True \<and> ID q = ID p \<and>
        evs w1 = evs w0 @ take k es \<and>
        GetPanelPng (gClient rep) w1 q (dashName rep) (time rep) = Inr b \<and>
        files (imgFilePath rep p) = Some (File (Bytes (data b))))"

text \<open>As long as nothing has failed, the image of every panel requested is delivered.\<close>

definition inv_clean :: "report \<Rightarrow> world \<Rightarrow> pool \<Rightarrow> bool" where
  "inv_clean rep w0 s =
     (failed_paths rep (since w0 s) = [] \<longrightarrow>
      (\<forall>p\<in>set (fetched_of (since w0 s)). delivered rep w0 (since w0 s) (fs (pw s)) p))"

text \<open>Where nothing about the panels of the dashboard fails, nothing has failed.\<close>

definition inv_nofail :: "env \<Rightarrow> report \<Rightarrow> Dashboard \<Rightarrow> world \<Rightarrow> pool \<Rightarrow> bool" where
  "inv_nofail en rep dash w0 s =
     ((\<forall>p\<in>set (Panels dash). fetch_ok en rep p) \<longrightarrow> failed_paths rep (since w0 s) = [])"
section \<open>Example inputs\<close>

definition time0 :: TimeRange where
  "time0 = \<lparr>From = ''now-1h'', To = ''now'', FromFormatted = ''Mon Jan 1 10:00:00 UTC 2018'',
            ToFormatted = ''Mon Jan 1 11:00:00 UTC 2018''\<rparr>"

definition panel1 :: Panel where
  "panel1 = \<lparr>ID = 1, Title = ''QPS'', RowTitle = ''Cluster'', Kind = Graph\<rparr>"

definition panel1' :: Panel where
  "panel1' = \<lparr>ID = 1, Title = ''Uptime'', RowTitle = ''Server'', Kind = SingleStat\<rparr>"

definition panel2 :: Panel where
  "panel2 = \<lparr>ID = 2, Title = ''Stores'', RowTitle = ''Cluster'', Kind = SingleStat\<rparr>"

definition panel3 :: Panel where
  "panel3 = \<lparr>ID = 3, Title = ''Latency'', RowTitle = ''KV'', Kind = Graph\<rparr>"

definition dash_of :: "Panel list \<Rightarrow> Dashboard" where
  "dash_of ps = \<lparr>DashTitle = ''X'', Panels = ps\<rparr>"

text \<open>A service that knows one dashboard and delivers four bytes for every panel.\<close>

definition client_ok :: "Panel list \<Rightarrow> Client" where
  "client_ok ps =
     \<lparr>GetDashboard = (\<lambda>w n. Inr (dash_of ps)),
      GetPanelPng = (\<lambda>w p d t. Inr \<lparr>data = [137, 80, 78, 71], read_err = None\<rparr>)\<rparr>"

text \<open>A service that cannot be reached.\<close>

definition client_down :: Client where
  "client_down =
     \<lparr>GetDashboard = (\<lambda>w n. Inl (ExtError ''connection refused'')),
      GetPanelPng = (\<lambda>w p d t. Inl (ExtError ''connection refused''))\<rparr>"

text \<open>A service whose request for the panel with identifier 2 times out.\<close>

definition client_p2_fails :: "Panel list \<Rightarrow> Client" where
  "client_p2_fails ps =
     \<lparr>GetDashboard = (\<lambda>w n. Inr (dash_of ps)),
      GetPanelPng = (\<lambda>w p d t. if ID p = 2 then Inl (ExtError ''timeout'')
                                else Inr \<lparr>data = [137, 80, 78, 71], read_err = None\<rparr>)\<rparr>"

text \<open>An environment in which nothing fails.\<close>

definition env_ok :: env where
  "env_ok =
     \<lparr>MkdirAll_fault = (\<lambda>w p. None), Create_fault = (\<lambda>w p. None), Write_fault = (\<lambda>w p. None),
      RemoveAll_fault = (\<lambda>w p. None), Open_fault = (\<lambda>w p. None),
      AddTTFFont_fault = (\<lambda>f p. None), SetFont_fault = (\<lambda>f n. None),
      Image_fault = (\<lambda>m p. None), WritePdf_fails = (\<lambda>w p. False)\<rparr>"

definition world0 :: world where
  "world0 = \<lparr>fs = Map.empty, evs = []\<rparr>"

definition rep_ok :: "Panel list \<Rightarrow> report" where
  "rep_ok ps = new (client_ok ps) ''X'' time0 ''6ba7b810''"

definition rep_down :: report where
  "rep_down = new client_down ''Y'' time0 ''6ba7b810''"

text \<open>An environment in which removing the scratch directory is refused.\<close>

definition env_rm_fails :: env where
  "env_rm_fails =
     env_ok\<lparr>RemoveAll_fault := (\<lambda>w p. Some (ExtError ''permission denied'', [p]))\<rparr>"


text \<open>An environment in which the image of the panel with identifier 1 cannot be placed.\<close>

definition env_img_fails :: env where
  "env_img_fails =
     env_ok\<lparr>Image_fault :=
       (\<lambda>m p. if p = ''tmp/6ba7b810/images/image1.png'' then Some (ExtError ''unsupported image'')
               else None)\<rparr>"

definition rep_p2_fails :: "Panel list \<Rightarrow> report" where
  "rep_p2_fails ps = new (client_p2_fails ps) ''X'' time0 ''6ba7b810''"

text \<open>The error returned for the panel with identifier 2 by that service.\<close>

definition err_p2 :: error where
  "err_p2 = Errorf ''getting panel %+v error: %v'' [APanel panel2, AErr (ExtError ''timeout'')]"

text \<open>A schedule.\<close>

definition sched0 :: "nat list" where
  "sched0 = [3, 1, 4, 1, 5, 9, 2, 6]"



text \<open>A service that delivers for every panel four bytes followed by its identifier.\<close>

definition client_by_id :: "Panel list \<Rightarrow> Client" where
  "client_by_id ps =
     \<lparr>GetDashboard = (\<lambda>w n. Inr (dash_of ps)),
      GetPanelPng = (\<lambda>w p d t. Inr \<lparr>data = [137, 80, 78, 71, nat (ID p)], read_err = None\<rparr>)\<rparr>"

definition rep_by_id :: "Panel list \<Rightarrow> report" where
  "rep_by_id ps = new (client_by_id ps) ''X'' time0 ''6ba7b810''"

section \<open>Paths of the panel images\<close>

lemma show_nat_ne: "show_nat n \<noteq> []"
  by (subst show_nat.simps) simp

lemma digit_char_in: "digit_char n \<in> set ''0123456789''"
  unfolding digit_char_def by (rule nth_mem) simp

lemma show_nat_digits: "set (show_nat n) \<subseteq> set ''0123456789''"
proof (induction n rule: show_nat.induct)
  case (1 n)
  show ?case
  proof (cases "n < 10")
    case True
    then show ?thesis using digit_char_in[of n] by (subst show_nat.simps) simp
  next
    case False
    then show ?thesis using 1 digit_char_in[of "n mod 10"] by (subst show_nat.simps) simp
  qed
qed

lemma digit_char_inj: "a < 10 \<Longrightarrow> b < 10 \<Longrightarrow> digit_char a = digit_char b \<Longrightarrow> a = b"
proof -
  assume a: "a < 10" and b: "b < 10" and e: "digit_char a = digit_char b"
  have d: "distinct ''0123456789''" by simp
  have "''0123456789'' ! a = ''0123456789'' ! b" using a b e by (simp add: digit_char_def)
  then show "a = b" using d a b by (simp add: nth_eq_iff_index_eq)
qed

lemma show_nat_inj: "show_nat m = show_nat n \<Longrightarrow> m = n"
proof (induction m arbitrary: n rule: show_nat.induct)
  case (1 m)
  show ?case
  proof (cases "m < 10")
    case True
    then have sm: "show_nat m = [digit_char m]" by (subst show_nat.simps) simp
    show ?thesis
    proof (cases "n < 10")
      case True
      then have "show_nat n = [digit_char n]" by (subst show_nat.simps) simp
      then show ?thesis using sm 1(2) True \<open>m < 10\<close> digit_char_inj by simp
    next
      case False
      then have "show_nat n = show_nat (n div 10) @ [digit_char (n mod 10)]"
        by (subst show_nat.simps) simp
      then show ?thesis using sm 1(2) show_nat_ne[of "n div 10"] by simp
    qed
  next
    case False
    then have sm: "show_nat m = show_nat (m div 10) @ [digit_char (m mod 10)]"
      by (subst show_nat.simps) simp
    show ?thesis
    proof (cases "n < 10")
      case True
      then have "show_nat n = [digit_char n]" by (subst show_nat.simps) simp
      then show ?thesis using sm 1(2) show_nat_ne[of "m div 10"] by simp
    next
      case nf: False
      then have sn: "show_nat n = show_nat (n div 10) @ [digit_char (n mod 10)]"
        by (subst show_nat.simps) simp
      from sm sn 1(2) have e1: "show_nat (m div 10) = show_nat (n div 10)"
        and e2: "digit_char (m mod 10) = digit_char (n mod 10)" by simp_all
      from 1(1)[OF False e1] have d: "m div 10 = n div 10" .
      from e2 have "m mod 10 = n mod 10" by (intro digit_char_inj) simp_all
      with d show ?thesis by (metis div_mult_mod_eq)
    qed
  qed
qed

lemma show_nat_no_minus: "hd (show_nat n) \<noteq> CHR ''-''"
proof -
  have "hd (show_nat n) \<in> set (show_nat n)" using show_nat_ne by simp
  then have "hd (show_nat n) \<in> set ''0123456789''" using show_nat_digits by blast
  then show ?thesis by auto
qed

lemma fmt_d_inj:
  assumes e: "fmt_d i = fmt_d j"
  shows "i = j"
proof (cases "i < 0")
  case True
  show ?thesis
  proof (cases "j < 0")
    case jt: True
    with True e have "show_nat (nat (- i)) = show_nat (nat (- j))" by (simp add: fmt_d_def)
    then have "nat (- i) = nat (- j)" by (rule show_nat_inj)
    with True jt show ?thesis by simp
  next
    case False
    with True e have "CHR ''-'' # show_nat (nat (- i)) = show_nat (nat j)" by (simp add: fmt_d_def)
    then have "hd (show_nat (nat j)) = CHR ''-''" by (metis list.sel(1))
    with show_nat_no_minus show ?thesis by blast
  qed
next
  case False
  show ?thesis
  proof (cases "j < 0")
    case True
    with False e have "show_nat (nat i) = CHR ''-'' # show_nat (nat (- j))" by (simp add: fmt_d_def)
    then have "hd (show_nat (nat i)) = CHR ''-''" by (metis list.sel(1))
    with show_nat_no_minus show ?thesis by blast
  next
    case jf: False
    with False e have "show_nat (nat i) = show_nat (nat j)" by (simp add: fmt_d_def)
    then have "nat i = nat j" by (rule show_nat_inj)
    with False jf show ?thesis by simp
  qed
qed

lemma split_on_ne: "split_on c xs \<noteq> []"
  by (induction xs) (auto split: list.splits)

lemma split_on_append: "split_on c (xs @ c # n) = split_on c xs @ split_on c n"
  by (induction xs) (auto split: list.splits simp: split_on_ne)

lemma split_on_none: "c \<notin> set n \<Longrightarrow> split_on c n = [n]"
  by (induction n) auto

lemma strings_Join_snoc:
  "strings_Join (xs @ [n]) sep = (if xs = [] then n else strings_Join xs sep @ sep @ n)"
  by (induction xs sep rule: strings_Join.induct) auto

lemma Clean_path_simple:
  assumes "simple_name n"
  shows "Clean_path n = n"
proof -
  from assms have s: "split_on CHR ''/'' n = [n]" by (simp add: simple_name_def split_on_none)
  from assms have h: "hd n \<noteq> CHR ''/''" by (cases n) (auto simp: simple_name_def)
  show ?thesis using assms s h
    by (simp add: Clean_path_def clean_out_def simple_name_def)
qed

text \<open>Joining a directory with a simple name puts the name behind a prefix fixed by the directory.\<close>

lemma Join_simple:
  assumes "simple_name n"
  shows "filepath_Join [d, n] = dir_prefix d @ n"
proof (cases "d = []")
  case True
  then show ?thesis using assms Clean_path_simple[OF assms]
    by (simp add: filepath_Join_def dir_prefix_def simple_name_def)
next
  case False
  define rooted where "rooted = (hd d = CHR ''/'')"
  define s where "s = foldl (clean_elem rooted) (0, []) (split_on CHR ''/'' d)"
  have j: "filepath_Join [d, n] = Clean_path (d @ CHR ''/'' # n)"
    using False by (simp add: filepath_Join_def)
  have sp: "split_on CHR ''/'' (d @ CHR ''/'' # n) = split_on CHR ''/'' d @ [n]"
    using assms by (simp add: split_on_append split_on_none simple_name_def)
  have hd: "hd (d @ CHR ''/'' # n) = hd d" using False by simp
  have st: "foldl (clean_elem rooted) (0, []) (split_on CHR ''/'' d @ [n]) = (fst s, n # snd s)"
    using assms by (cases s) (simp add: s_def simple_name_def)
  have "Clean_path (d @ CHR ''/'' # n) = clean_out rooted (fst s, n # snd s)"
    using False sp hd st by (simp add: Clean_path_def rooted_def Let_def)
  also have "\<dots> = dir_prefix d @ n"
  proof -
    define xs where "xs = replicate (fst s) ''..'' @ rev (snd s)"
    have b: "strings_Join (replicate (fst s) ''..'' @ rev (n # snd s)) ''/'' =
               (if xs = [] then n else strings_Join xs ''/'' @ ''/'' @ n)"
      using strings_Join_snoc[of xs n "''/''"] by (simp add: xs_def)
    have ne: "n \<noteq> []" using assms by (simp add: simple_name_def)
    have dp: "dir_prefix d =
        (if rooted then ''/'' else []) @ (if xs = [] then [] else strings_Join xs ''/'' @ ''/'')"
      using False unfolding dir_prefix_def Let_def rooted_def[symmetric] s_def[symmetric] xs_def
      by simp
    show ?thesis
      unfolding clean_out_def Let_def fst_conv snd_conv b dp using ne by simp
  qed
  finally show ?thesis using j by simp
qed

lemma fmt_d_no_slash: "CHR ''/'' \<notin> set (fmt_d i)"
proof -
  have "CHR ''/'' \<notin> set ''0123456789''" by simp
  then have "CHR ''/'' \<notin> set (show_nat n)" for n using show_nat_digits[of n] by blast
  then show ?thesis by (simp add: fmt_d_def)
qed

lemma imgFileName_simple: "simple_name (''image'' @ fmt_d i @ ''.png'')"
  using fmt_d_no_slash[of i] by (simp add: simple_name_def)

lemma imgFilePath_eq:
  "imgFilePath rep p = dir_prefix (imgDirPath rep) @ ''image'' @ fmt_d (ID p) @ ''.png''"
  using Join_simple[OF imgFileName_simple] by (simp add: imgFilePath_def)

lemma imgFilePath_inj: "imgFilePath rep p = imgFilePath rep p' \<Longrightarrow> ID p = ID p'"
  by (rule fmt_d_inj) (simp add: imgFilePath_eq)

text \<open>
  Claim C9. The path of a panel's image is a function of the scratch directory of the
  run (\<open>tmpDir\<close>) and of the panel's identifier alone: two reports with the same scratch
  directory and two panels with the same identifier give the same path, whatever their
  titles, rows and kinds. Within one run, panels with different identifiers get different
  paths, so no two workers write the same file when the identifiers are distinct.
\<close>

theorem imgFilePath_function_of_root_and_id:
  "(tmpDir rep = tmpDir rep' \<and> ID p = ID p' \<longrightarrow> imgFilePath rep p = imgFilePath rep' p') \<and>
   (ID p \<noteq> ID q \<longrightarrow> imgFilePath rep p \<noteq> imgFilePath rep q)"
proof (intro conjI impI)
  assume "tmpDir rep = tmpDir rep' \<and> ID p = ID p'"
  then show "imgFilePath rep p = imgFilePath rep' p'"
    by (simp add: imgFilePath_def imgDirPath_def)
next
  assume ne: "ID p \<noteq> ID q"
  show "imgFilePath rep p \<noteq> imgFilePath rep q"
  proof
    assume "imgFilePath rep p = imgFilePath rep q"
    then have "fmt_d (ID p) = fmt_d (ID q)" by (simp add: imgFilePath_eq)
    then have "ID p = ID q" by (rule fmt_d_inj)
    with ne show False by simp
  qed
qed

theorem imgFilePath_function_of_root_and_id_witness:
  "tmpDir (rep_ok [panel1]) = tmpDir rep_down \<and> ID panel1 = ID panel1' \<and>
   imgFilePath (rep_ok [panel1]) panel1 = imgFilePath rep_down panel1' \<and>
   ID panel1 \<noteq> ID panel2 \<and>
   imgFilePath (rep_ok [panel1]) panel1 \<noteq> imgFilePath (rep_ok [panel1]) panel2"
proof -
  have h1: "tmpDir (rep_ok [panel1]) = tmpDir rep_down \<and> ID panel1 = ID panel1'"
    by (simp add: rep_ok_def rep_down_def new_def panel1_def panel1'_def)
  have h2: "ID panel1 \<noteq> ID panel2"
    by (simp add: panel1_def panel2_def)
  show ?thesis
    using h1 h2
      imgFilePath_function_of_root_and_id
        [where rep = "rep_ok [panel1]" and rep' = rep_down and p = panel1 and p' = panel1'
           and q = panel2]
    by blast
qed

section \<open>Fetching one image\<close>



lemma evs_emit: "evs (emit e w) = evs w @ [e]"
  by (simp add: emit_def)

lemma fs_emit: "fs (emit e w) = fs w"
  by (simp add: emit_def)

lemma os_Create_evs:
  "os_Create en path w = (r, w') \<Longrightarrow>
     (r = Inr path \<and> evs w' = evs w @ [EvCreate path True]) \<or>
     ((\<exists>e. r = Inl e) \<and> evs w' = evs w @ [EvCreate path False])"
  by (auto simp: os_Create_def evs_emit split: option.splits)

lemma io_Copy_evs:
  "io_Copy en file b w = (r, w') \<Longrightarrow>
     (r = None \<and> evs w' = evs w @ [EvCopy file True]) \<or>
     ((\<exists>e. r = Some e) \<and> evs w' = evs w @ [EvCopy file False])"
  by (auto simp: io_Copy_def evs_emit Let_def split: option.splits)

text \<open>
  Claim C7. Whatever \<^verbatim>\<open>renderPNG\<close> returns, the events it adds have one of four shapes:
  the request failed and nothing was opened; the body was opened, creating the file
  failed, and the body was closed; the body was opened, the file was created, copying
  failed, and the file and then the body were closed; or all succeeded and the file and
  then the body were closed. So the body is closed exactly as often as it was opened, and
  the file exactly as often as it was created.
\<close>

theorem renderPNG_closes_body_and_file:
  "let w' = snd (renderPNG en rep p w);
       new = drop (length (evs w)) (evs w');
       path = imgFilePath rep p
   in evs w' = evs w @ new \<and>
      (new = [EvGetPanelPng p False] \<or>
       new = [EvGetPanelPng p True, EvCreate path False, EvBodyClose p] \<or>
       new = [EvGetPanelPng p True, EvCreate path True, EvCopy path False,
              EvFileClose path, EvBodyClose p] \<or>
       new = [EvGetPanelPng p True, EvCreate path True, EvCopy path True,
              EvFileClose path, EvBodyClose p]) \<and>
      count_list new (EvBodyClose p) = count_list new (EvGetPanelPng p True) \<and>
      count_list new (EvFileClose path) = count_list new (EvCreate path True)"
proof (cases "GetPanelPng (gClient rep) w p (dashName rep) (time rep)")
  case (Inl err)
  then show ?thesis
    by (simp add: renderPNG_def evs_emit)
next
  case (Inr b)
  define w1 where "w1 = emit (EvGetPanelPng p True) w"
  define path where "path = imgFilePath rep p"
  obtain r2 w2 where c: "os_Create en path w1 = (r2, w2)" by (cases "os_Create en path w1")
  have e1: "evs w1 = evs w @ [EvGetPanelPng p True]"
    by (simp add: w1_def evs_emit)
  show ?thesis
  proof (cases r2)
    case (Inl e)
    with os_Create_evs[OF c] have e2: "evs w2 = evs w1 @ [EvCreate path False]" by auto
    have res: "snd (renderPNG en rep p w) = body_Close p w2"
      using Inr c Inl by (simp add: renderPNG_def Let_def w1_def path_def)
    show ?thesis
      unfolding Let_def res path_def[symmetric]
      by (simp add: body_Close_def evs_emit e1 e2)
  next
    case r2: (Inr fl)
    with os_Create_evs[OF c] have e2: "evs w2 = evs w1 @ [EvCreate path True]"
      and f: "fl = path" by auto
    obtain r3 w3 where cp: "io_Copy en path b w2 = (r3, w3)" by (cases "io_Copy en path b w2")
    have res: "snd (renderPNG en rep p w) = body_Close p (file_Close path w3)"
      using Inr c r2 f cp
      by (cases r3) (simp_all add: renderPNG_def Let_def w1_def path_def)
    from io_Copy_evs[OF cp] have
      "evs w3 = evs w2 @ [EvCopy path True] \<or> evs w3 = evs w2 @ [EvCopy path False]"
      by blast
    then show ?thesis
      unfolding Let_def res path_def[symmetric]
      by (auto simp: body_Close_def file_Close_def evs_emit e1 e2)
  qed
qed

section \<open>Cleaning up\<close>



lemma os_RemoveAll_fst: "fst (os_RemoveAll en d w) = map_option fst (RemoveAll_fault en w d)"
  by (simp add: os_RemoveAll_def split: option.splits prod.splits)








section \<open>Failure of the metadata request\<close>

text \<open>
  Claim C8. When fetching the dashboard fails, \<^verbatim>\<open>Generate\<close> returns the error with the
  file system untouched: the only event is the request for the dashboard, so no directory
  was created and no file written.
\<close>

theorem Generate_metadata_failure_creates_nothing:
  assumes "GetDashboard (gClient rep) w (dashName rep) = Inl err"
  shows "\<exists>w'. Generate en cfg FontDir rep sched w =
           Some (Inl (Errorf ''fetching dashboard %s error: %v'' [AStr (dashName rep), AErr err]), w') \<and>
         fs w' = fs w \<and> evs w' = evs w @ [EvGetDashboard (dashName rep)]"
  using assms by (simp add: Generate_def Let_def fs_emit evs_emit)

theorem Generate_metadata_failure_creates_nothing_witness:
  "GetDashboard (gClient rep_down) world0 (dashName rep_down) = Inl (ExtError ''connection refused'') \<and>
   (\<exists>w'. Generate env_ok defaultConf ''fonts/'' rep_down [] world0 =
           Some (Inl (Errorf ''fetching dashboard %s error: %v''
                        [AStr (dashName rep_down), AErr (ExtError ''connection refused'')]), w') \<and>
         fs w' = fs world0 \<and> evs w' = evs world0 @ [EvGetDashboard (dashName rep_down)])"
proof -
  have h: "GetDashboard (gClient rep_down) world0 (dashName rep_down) =
             Inl (ExtError ''connection refused'')"
    by (simp add: rep_down_def new_def client_down_def)
  show ?thesis
    using h Generate_metadata_failure_creates_nothing[OF h, of env_ok defaultConf "''fonts/''" "[]"]
    by simp
qed

section \<open>Assembling the document\<close>

lemma pages_put: "pages pdf = pre @ [cur] \<Longrightarrow> pages (put d pdf) = pre @ [cur @ [d]]"
  by (simp add: put_def)

lemma pages_AddPage: "pages (AddPage pdf) = pages pdf @ [[]]"
  by (simp add: AddPage_def)

lemma pages_createHomePage:
  "pages (createHomePage cfg rep dash pdf) = pages pdf @ [home_draws cfg rep dash]"
proof -
  have a: "pages (AddPage pdf) = pages pdf @ [[]]" by (rule pages_AddPage)
  note p1 = pages_put[OF a, of "SetX (X (Position cfg))"]
  note p2 = pages_put[OF p1, of "Cell (''Dashboard: '' @ DashTitle dash)"]
  note p3 = pages_put[OF p2, of "DrawBr (Br (Position cfg))"]
  note p4 = pages_put[OF p3, of "SetX (X (Position cfg))"]
  note p5 = pages_put[OF p4, of "Cell (FromFormatted (time rep) @ '' to '' @ ToFormatted (time rep))"]
  show ?thesis unfolding createHomePage_def home_draws_def using p5 by simp
qed

lemma place_panel_effect:
  assumes pg: "pages pdf = pre @ [cur]"
  shows "\<exists>pdf' w'. place_panel en cfg rep p (pdf, w, int c) = (pdf', w', int (Suc c)) \<and>
           pages pdf' = (if even c then pre @ [cur @ slot_draws en cfg rep (fs w) c p]
                         else pre @ [cur @ slot_draws en cfg rep (fs w) c p, []]) \<and>
           fs w' = fs w \<and> evs w' = evs w @ [place_log en rep (fs w) p]"
proof -
  define rect where "rect = (if IsSingleStat p then Rect_at cfg ''singlestat'' else Rect_at cfg ''graph'')"
  define ty where "ty = (if c mod 2 = 0 then TitleY1 (Position cfg) else TitleY2 (Position cfg))"
  define pdf1 where "pdf1 = put (Cell (panel_title p)) (put (SetY ty) (put (SetX (X (Position cfg))) pdf))"
  have p1: "pages pdf1 = pre @ [cur @ title_draws cfg c p]"
    unfolding pdf1_def title_draws_def ty_def
    using pages_put[OF pages_put[OF pages_put[OF pg]]] by simp
  have par: "(int c mod 2 = 0) = (c mod 2 = 0)" by presburger
  show ?thesis
  proof (cases "Image_fault en (fs w) (imgFilePath rep p)")
    case None
    show ?thesis
    proof (cases "c mod 2 = 0")
      case True
      then show ?thesis
        using None pages_put[OF p1]
        by (simp add: place_panel_def Let_def gopdf_Image_def par pdf1_def ty_def rect_def
            slot_draws_def image_draws_def place_log_def log_Infof_def emit_def even_iff_mod_2_eq_zero)
    next
      case False
      then show ?thesis
        using None pages_put[OF p1]
        by (simp add: place_panel_def Let_def gopdf_Image_def par pdf1_def ty_def rect_def
            slot_draws_def image_draws_def place_log_def log_Infof_def emit_def pages_AddPage
            even_iff_mod_2_eq_zero)
    qed
  next
    case (Some e)
    show ?thesis
    proof (cases "c mod 2 = 0")
      case True
      then show ?thesis
        using Some p1
        by (simp add: place_panel_def Let_def gopdf_Image_def par pdf1_def ty_def rect_def
            slot_draws_def image_draws_def place_log_def log_Errorf_def emit_def even_iff_mod_2_eq_zero)
    next
      case False
      then show ?thesis
        using Some p1
        by (simp add: place_panel_def Let_def gopdf_Image_def par pdf1_def ty_def rect_def
            slot_draws_def image_draws_def place_log_def log_Errorf_def emit_def pages_AddPage
            even_iff_mod_2_eq_zero)
    qed
  qed
qed


lemma place_panels_effect:
  "pages pdf = pre @ [cur] \<Longrightarrow>
   \<exists>pdf' w'. place_panels en cfg rep ps (pdf, w, int c) = (pdf', w', int (c + length ps)) \<and>
     pages pdf' =
       pre @ (if even c then paginate cur (slots en cfg rep (fs w) c ps)
              else (case slots en cfg rep (fs w) c ps of
                      [] \<Rightarrow> [cur]
                    | a # rest \<Rightarrow> (cur @ a) # paginate [] rest)) \<and>
     fs w' = fs w \<and> evs w' = evs w @ map (place_log en rep (fs w)) ps"
proof (induction ps arbitrary: pdf w c pre cur)
  case Nil
  then show ?case by simp
next
  case (Cons p ps)
  define s where "s = slot_draws en cfg rep (fs w) c p"
  from place_panel_effect[OF Cons.prems, of en cfg rep p w c]
  obtain pdf1 w1 where
    st: "place_panel en cfg rep p (pdf, w, int c) = (pdf1, w1, int (Suc c))" and
    pg: "pages pdf1 = (if even c then pre @ [cur @ s] else pre @ [cur @ s, []])" and
    f1: "fs w1 = fs w" and e1: "evs w1 = evs w @ [place_log en rep (fs w) p]"
    unfolding s_def by blast
  show ?case
  proof (cases "even c")
    case True
    with pg have pg': "pages pdf1 = pre @ [cur @ s]" by simp
    from Cons.IH[OF pg', of w1 "Suc c"] True
    obtain pdf' w' where
      r: "place_panels en cfg rep ps (pdf1, w1, int (Suc c)) = (pdf', w', int (Suc c + length ps))" and
      pp: "pages pdf' = pre @ (case slots en cfg rep (fs w1) (Suc c) ps of
                                 [] \<Rightarrow> [cur @ s]
                               | a # rest \<Rightarrow> ((cur @ s) @ a) # paginate [] rest)" and
      f': "fs w' = fs w1" and e': "evs w' = evs w1 @ map (place_log en rep (fs w1)) ps"
      by auto
    have "pages pdf' = pre @ paginate cur (s # slots en cfg rep (fs w) (Suc c) ps)"
      using pp f1 by (cases "slots en cfg rep (fs w) (Suc c) ps") simp_all
    then show ?thesis
      using True r f' e' f1 e1 st by (simp add: s_def)
  next
    case False
    with pg have pg': "pages pdf1 = (pre @ [cur @ s]) @ [[]]" by simp
    from Cons.IH[OF pg', of w1 "Suc c"] False
    obtain pdf' w' where
      r: "place_panels en cfg rep ps (pdf1, w1, int (Suc c)) = (pdf', w', int (Suc c + length ps))" and
      pp: "pages pdf' = (pre @ [cur @ s]) @ paginate [] (slots en cfg rep (fs w1) (Suc c) ps)" and
      f': "fs w' = fs w1" and e': "evs w' = evs w1 @ map (place_log en rep (fs w1)) ps"
      by auto
    show ?thesis
      using False r pp f' e' f1 e1 st by (simp add: s_def)
  qed
qed

lemma length_slots: "length (slots en cfg rep files c ps) = length ps"
  by (induction ps arbitrary: c) simp_all

lemma nth_slots:
  "i < length ps \<Longrightarrow> slots en cfg rep files c ps ! i = slot_draws en cfg rep files (c + i) (ps ! i)"
proof (induction ps arbitrary: c i)
  case Nil
  then show ?case by simp
next
  case (Cons p ps)
  then show ?case by (cases i) simp_all
qed

lemma length_paginate: "length (paginate cur xs) = 1 + length xs div 2"
  by (induction cur xs rule: paginate.induct) simp_all

lemma nth_paginate:
  "2 * k < length xs \<Longrightarrow>
   paginate cur xs ! k =
     (if k = 0 then cur else []) @ xs ! (2 * k) @
     (if 2 * k + 1 < length xs then xs ! (2 * k + 1) else [])"
proof (induction cur xs arbitrary: k rule: paginate.induct)
  case (1 cur)
  then show ?case by simp
next
  case (2 cur a)
  then show ?case by simp
next
  case (3 cur a b rest)
  show ?case
  proof (cases k)
    case 0
    then show ?thesis by simp
  next
    case (Suc j)
    with 3 have "2 * j < length rest" by simp
    from "3.IH"[OF this] Suc show ?thesis by simp
  qed
qed

lemma last_paginate_even:
  "even (length xs) \<Longrightarrow> paginate cur xs ! (length xs div 2) = (if xs = [] then cur else [])"
proof (induction cur xs rule: paginate.induct)
  case (1 cur)
  then show ?case by simp
next
  case (2 cur a)
  then show ?case by simp
next
  case (3 cur a b rest)
  then have "paginate [] rest ! (length rest div 2) = []" by simp
  then show ?case by simp
qed

lemma NewPDF_Inr:
  "NewPDF en cfg FontDir w = (Inr pdf, w1) \<Longrightarrow> pages pdf = [] \<and> w1 = w"
  by (auto simp: NewPDF_def Let_def AddTTFFont_def SetFont_def gopdf_Start_def
      split: option.splits)

lemma NewPDF_ok:
  "AddTTFFont_fault en (Family (Font cfg)) (FontDir @ Ttf (Font cfg)) = None \<Longrightarrow>
   SetFont_fault en (Family (Font cfg)) (Size (Font cfg)) = None \<Longrightarrow>
   \<exists>pdf. NewPDF en cfg FontDir w = (Inr pdf, w)"
  by (simp add: NewPDF_def Let_def AddTTFFont_def SetFont_def)

text \<open>The document and the events of a call of \<^verbatim>\<open>renderPDF\<close> that went past the fonts.\<close>

lemma renderPDF_after_fonts:
  assumes np: "NewPDF en cfg FontDir (log_Infof ''PDF templates config: %+v\<newline>'' [ACfg cfg] w) = (Inr pdf, w1)"
  shows "\<exists>pdf' w2. pages pdf' = paginate (home_draws cfg rep dash) (slots en cfg rep (fs w) 0 (Panels dash)) \<and>
           fs w2 = fs w \<and>
           evs w2 = evs w @ [EvLog LInfo ''PDF templates config: %+v\<newline>'' [ACfg cfg]] @
                      map (place_log en rep (fs w)) (Panels dash) \<and>
           renderPDF en cfg FontDir rep dash w =
             (case os_Open en (pdfPath rep) (WritePdf en (pdfPath rep) pdf' w2) of
                (Inl err, w3) \<Rightarrow> (Inl (Wrap err ''open pdf file''), w3)
              | (Inr outputPDF, w3) \<Rightarrow> (Inr outputPDF, w3))"
proof -
  from NewPDF_Inr[OF np] have p0: "pages pdf = []" and w1: "w1 = log_Infof ''PDF templates config: %+v\<newline>'' [ACfg cfg] w"
    by simp_all
  have hp: "pages (createHomePage cfg rep dash pdf) = [] @ [home_draws cfg rep dash]"
    using pages_createHomePage[of cfg rep dash pdf] p0 by simp
  from place_panels_effect[OF hp, of en cfg rep "Panels dash" w1 0]
  obtain pdf' w2 where
    r: "place_panels en cfg rep (Panels dash) (createHomePage cfg rep dash pdf, w1, 0) =
          (pdf', w2, int (length (Panels dash)))" and
    pp: "pages pdf' = paginate (home_draws cfg rep dash) (slots en cfg rep (fs w1) 0 (Panels dash))" and
    f2: "fs w2 = fs w1" and e2: "evs w2 = evs w1 @ map (place_log en rep (fs w1)) (Panels dash)"
    by auto
  have fw1: "fs w1 = fs w" and ew1: "evs w1 = evs w @ [EvLog LInfo ''PDF templates config: %+v\<newline>'' [ACfg cfg]]"
    by (simp_all add: w1 log_Infof_def emit_def)
  have "renderPDF en cfg FontDir rep dash w =
             (case os_Open en (pdfPath rep) (WritePdf en (pdfPath rep) pdf' w2) of
                (Inl err, w3) \<Rightarrow> (Inl (Wrap err ''open pdf file''), w3)
              | (Inr outputPDF, w3) \<Rightarrow> (Inr outputPDF, w3))"
    using np r unfolding renderPDF_def Let_def w1 by simp
  with pp f2 e2 fw1 ew1 show ?thesis by auto
qed

lemma os_Open_WritePdf:
  assumes "\<not> WritePdf_fails en w2 path"
  shows "os_Open en path (WritePdf en path pdf' w2) = (r, w3) \<Longrightarrow>
         (case r of Inr f \<Rightarrow> opened f = File (PdfDoc (pages pdf')) \<and> name f = path | Inl e \<Rightarrow> True) \<and>
         (Open_fault en (WritePdf en path pdf' w2) path = None \<longrightarrow> (\<exists>f. r = Inr f))"
  using assms
  by (auto simp: os_Open_def WritePdf_def emit_def split: option.splits sum.splits)

lemma renderPDF_Inr:
  assumes wr: "\<forall>w p. \<not> WritePdf_fails en w p"
    and r: "renderPDF en cfg FontDir rep dash w = (Inr f, w')"
  shows "doc_pages (Inr f) =
           Some (paginate (home_draws cfg rep dash) (slots en cfg rep (fs w) 0 (Panels dash)))"
proof -
  obtain r1 w1 where np: "NewPDF en cfg FontDir (log_Infof ''PDF templates config: %+v\<newline>'' [ACfg cfg] w) = (r1, w1)"
    by (cases "NewPDF en cfg FontDir (log_Infof ''PDF templates config: %+v\<newline>'' [ACfg cfg] w)")
  show ?thesis
  proof (cases r1)
    case (Inl e)
    with np r show ?thesis by (simp add: renderPDF_def Let_def)
  next
    case (Inr pdf)
    from renderPDF_after_fonts[OF np[unfolded Inr], of rep dash]
    obtain pdf' w2 where
      pp: "pages pdf' = paginate (home_draws cfg rep dash) (slots en cfg rep (fs w) 0 (Panels dash))" and
      rr: "renderPDF en cfg FontDir rep dash w =
             (case os_Open en (pdfPath rep) (WritePdf en (pdfPath rep) pdf' w2) of
                (Inl err, w3) \<Rightarrow> (Inl (Wrap err ''open pdf file''), w3)
              | (Inr outputPDF, w3) \<Rightarrow> (Inr outputPDF, w3))"
      by blast
    obtain ro w3 where o: "os_Open en (pdfPath rep) (WritePdf en (pdfPath rep) pdf' w2) = (ro, w3)"
      by (cases "os_Open en (pdfPath rep) (WritePdf en (pdfPath rep) pdf' w2)")
    from r rr o have "ro = Inr f" by (cases ro) simp_all
    with os_Open_WritePdf[OF wr[rule_format], OF o] have "opened f = File (PdfDoc (pages pdf'))"
      by simp
    with pp show ?thesis by (simp add: doc_pages_def)
  qed
qed

lemma renderPDF_returns:
  assumes fa: "AddTTFFont_fault en (Family (Font cfg)) (FontDir @ Ttf (Font cfg)) = None"
    and fo: "SetFont_fault en (Family (Font cfg)) (Size (Font cfg)) = None"
    and wr: "\<forall>w p. \<not> WritePdf_fails en w p"
    and op: "\<forall>w p. Open_fault en w p = None"
  shows "\<exists>f w'. renderPDF en cfg FontDir rep dash w = (Inr f, w') \<and>
           evs w' = evs w @ [EvLog LInfo ''PDF templates config: %+v\<newline>'' [ACfg cfg]] @
                      map (place_log en rep (fs w)) (Panels dash) @
                      [EvWritePdf (pdfPath rep), EvOpen (pdfPath rep) True]"
proof -
  from NewPDF_ok[OF fa fo]
  obtain pdf where np: "NewPDF en cfg FontDir (log_Infof ''PDF templates config: %+v\<newline>'' [ACfg cfg] w) =
      (Inr pdf, log_Infof ''PDF templates config: %+v\<newline>'' [ACfg cfg] w)"
    by blast
  from renderPDF_after_fonts[OF np, of rep dash]
  obtain pdf' w2 where
    e2: "evs w2 = evs w @ [EvLog LInfo ''PDF templates config: %+v\<newline>'' [ACfg cfg]] @
                      map (place_log en rep (fs w)) (Panels dash)" and
    rr: "renderPDF en cfg FontDir rep dash w =
             (case os_Open en (pdfPath rep) (WritePdf en (pdfPath rep) pdf' w2) of
                (Inl err, w3) \<Rightarrow> (Inl (Wrap err ''open pdf file''), w3)
              | (Inr outputPDF, w3) \<Rightarrow> (Inr outputPDF, w3))"
    by blast
  define w2' where "w2' = WritePdf en (pdfPath rep) pdf' w2"
  have f2: "fs w2' (pdfPath rep) = Some (File (PdfDoc (pages pdf')))"
    and ev2: "evs w2' = evs w2 @ [EvWritePdf (pdfPath rep)]"
    using wr by (simp_all add: w2'_def WritePdf_def emit_def)
  have "os_Open en (pdfPath rep) w2' =
          (Inr \<lparr>name = pdfPath rep, opened = File (PdfDoc (pages pdf'))\<rparr>,
           emit (EvOpen (pdfPath rep) True) w2')"
    using op f2 by (simp add: os_Open_def)
  then show ?thesis
    using rr e2 ev2 unfolding w2'_def[symmetric] by (simp add: emit_def)
qed

lemma filter_placed_title: "filter (placed en files) (title_draws cfg c p) = title_draws cfg c p"
  by (simp add: title_draws_def placed_def)

lemma filter_placed_home: "filter (placed en files) (home_draws cfg rep dash) = home_draws cfg rep dash"
  by (simp add: home_draws_def placed_def)

lemma slot_draws_filter:
  "slot_draws en cfg rep files c p =
     filter (placed en files) (slot_draws (en\<lparr>Image_fault := \<lambda>m q. None\<rparr>) cfg rep files c p)"
  by (simp add: slot_draws_def filter_placed_title image_draws_def placed_def split: option.splits)

lemma slots_filter:
  "slots en cfg rep files c ps =
     map (filter (placed en files)) (slots (en\<lparr>Image_fault := \<lambda>m q. None\<rparr>) cfg rep files c ps)"
  by (induction ps arbitrary: c) (simp_all add: slot_draws_filter[symmetric])

lemma paginate_map_filter:
  "paginate (filter P cur) (map (filter P) xs) = map (filter P) (paginate cur xs)"
  by (induction cur xs rule: paginate.induct) simp_all

lemma set_concat_paginate: "set (concat (paginate cur xs)) = set cur \<union> set (concat xs)"
  by (induction cur xs rule: paginate.induct) auto

lemma title_in_slots:
  "p \<in> set ps \<Longrightarrow> Cell (panel_title p) \<in> set (concat (slots en cfg rep files c ps))"
  by (induction ps arbitrary: c) (auto simp: slot_draws_def title_draws_def)

text \<open>
  Claim C1, amended. A document returned by \<^verbatim>\<open>renderPDF\<close> for a dashboard with \<open>N\<close>
  panels has exactly \<open>1 + N div 2\<close> pages, rounding down: \<^verbatim>\<open>createHomePage\<close> adds the
  first page and the loop adds a page after every panel with an odd counter, so the first
  two panels share the first page. For \<open>N = 0\<close> the document is the one page of
  \<^verbatim>\<open>createHomePage\<close>. (Finalising the document is assumed to work: it has no error
  result.)
\<close>

theorem renderPDF_page_count:
  assumes "\<forall>w p. \<not> WritePdf_fails en w p"
    and "doc_pages (fst (renderPDF en cfg FontDir rep dash w)) = Some pgs"
  shows "length pgs = 1 + length (Panels dash) div 2 \<and>
         (Panels dash = [] \<longrightarrow> pgs = [home_draws cfg rep dash])"
proof -
  from assms(2) obtain f where f: "fst (renderPDF en cfg FontDir rep dash w) = Inr f"
    by (cases "fst (renderPDF en cfg FontDir rep dash w)") (simp_all add: doc_pages_def)
  then have "renderPDF en cfg FontDir rep dash w = (Inr f, snd (renderPDF en cfg FontDir rep dash w))"
    by (metis prod.collapse)
  from renderPDF_Inr[OF assms(1) this] assms(2) f
  have "pgs = paginate (home_draws cfg rep dash) (slots en cfg rep (fs w) 0 (Panels dash))"
    by simp
  then show ?thesis
    by (auto simp: length_paginate length_slots)
qed

theorem renderPDF_page_count_witness:
  "(\<forall>w p. \<not> WritePdf_fails env_ok w p) \<and>
   doc_pages (fst (renderPDF env_ok defaultConf ''fonts/'' (rep_ok []) (dash_of []) world0)) =
     Some [home_draws defaultConf (rep_ok []) (dash_of [])] \<and>
   Panels (dash_of []) = [] \<and>
   length [home_draws defaultConf (rep_ok []) (dash_of [])] = 1 + length (Panels (dash_of [])) div 2 \<and>
   length [home_draws defaultConf (rep_ok [panel1, panel2, panel3]) (dash_of [panel1, panel2, panel3])
             @ slot_draws env_ok defaultConf (rep_ok [panel1, panel2, panel3]) Map.empty 0 panel1
             @ slot_draws env_ok defaultConf (rep_ok [panel1, panel2, panel3]) Map.empty 1 panel2,
           slot_draws env_ok defaultConf (rep_ok [panel1, panel2, panel3]) Map.empty 2 panel3] =
     1 + length (Panels (dash_of [panel1, panel2, panel3])) div 2"
proof -
  have h: "\<forall>w p. \<not> WritePdf_fails env_ok w p"
    by (simp add: env_ok_def)
  have d0: "doc_pages (fst (renderPDF env_ok defaultConf ''fonts/'' (rep_ok []) (dash_of []) world0)) =
              Some [home_draws defaultConf (rep_ok []) (dash_of [])]"
    by code_simp
  have d3: "doc_pages (fst (renderPDF env_ok defaultConf ''fonts/'' (rep_ok [panel1, panel2, panel3])
                (dash_of [panel1, panel2, panel3]) world0)) =
     Some [home_draws defaultConf (rep_ok [panel1, panel2, panel3]) (dash_of [panel1, panel2, panel3])
             @ slot_draws env_ok defaultConf (rep_ok [panel1, panel2, panel3]) Map.empty 0 panel1
             @ slot_draws env_ok defaultConf (rep_ok [panel1, panel2, panel3]) Map.empty 1 panel2,
           slot_draws env_ok defaultConf (rep_ok [panel1, panel2, panel3]) Map.empty 2 panel3]"
    by code_simp
  have e: "Panels (dash_of []) = []"
    by (simp add: dash_of_def)
  from renderPDF_page_count[OF h d0] renderPDF_page_count[OF h d3] h d0 e
  show ?thesis by blast
qed

text \<open>
  The count of the specification, \<open>1 + ceil(N/2)\<close>, fails for one panel: the document has
  one page where the specification counts two.
\<close>

theorem renderPDF_page_count_counterexample:
  "map_option length
     (doc_pages (fst (renderPDF env_ok defaultConf ''fonts/'' (rep_ok [panel1]) (dash_of [panel1]) world0)))
     = Some 1 \<and>
   spec_page_count (length (Panels (dash_of [panel1]))) = 2"
  by code_simp


text \<open>
  Claim C2, amended. Counting pages from 0, page \<open>k\<close> of the document holds, in this
  order: on page 0 the dashboard title and the formatted time range; the title and image
  of panel \<open>2k\<close> at the upper offsets; the title and image of panel \<open>2k + 1\<close>, when there
  is one, at the lower offsets. So panel \<open>i\<close> is in band \<open>i mod 2\<close> of page \<open>i div 2\<close>, in
  the order of the dashboard, and the first two panels are on the page of the title: no
  page is begun between the title and the first panel. With an even number of panels the
  last page, begun after the last panel, holds nothing (or the title alone when there is
  no panel).
\<close>

theorem renderPDF_panel_positions:
  assumes "\<forall>w p. \<not> WritePdf_fails en w p"
    and "doc_pages (fst (renderPDF en cfg FontDir rep dash w)) = Some pgs"
  shows "(\<forall>k. 2 * k < length (Panels dash) \<longrightarrow>
            pgs ! k =
              (if k = 0 then home_draws cfg rep dash else []) @
              slot_draws en cfg rep (fs w) (2 * k) (Panels dash ! (2 * k)) @
              (if 2 * k + 1 < length (Panels dash)
               then slot_draws en cfg rep (fs w) (2 * k + 1) (Panels dash ! (2 * k + 1))
               else [])) \<and>
         (even (length (Panels dash)) \<longrightarrow>
            pgs ! (length (Panels dash) div 2) =
              (if Panels dash = [] then home_draws cfg rep dash else []))"
proof -
  from assms(2) obtain f where f: "fst (renderPDF en cfg FontDir rep dash w) = Inr f"
    by (cases "fst (renderPDF en cfg FontDir rep dash w)") (simp_all add: doc_pages_def)
  then have "renderPDF en cfg FontDir rep dash w = (Inr f, snd (renderPDF en cfg FontDir rep dash w))"
    by (metis prod.collapse)
  from renderPDF_Inr[OF assms(1) this] assms(2) f
  have pg: "pgs = paginate (home_draws cfg rep dash) (slots en cfg rep (fs w) 0 (Panels dash))"
    by simp
  show ?thesis
  proof (intro conjI allI impI)
    fix k
    assume k: "2 * k < length (Panels dash)"
    then have "2 * k < length (slots en cfg rep (fs w) 0 (Panels dash))"
      by (simp add: length_slots)
    from nth_paginate[OF this, of "home_draws cfg rep dash"] k
    show "pgs ! k =
              (if k = 0 then home_draws cfg rep dash else []) @
              slot_draws en cfg rep (fs w) (2 * k) (Panels dash ! (2 * k)) @
              (if 2 * k + 1 < length (Panels dash)
               then slot_draws en cfg rep (fs w) (2 * k + 1) (Panels dash ! (2 * k + 1))
               else [])"
      unfolding pg by (simp add: length_slots nth_slots)
  next
    assume "even (length (Panels dash))"
    then have "even (length (slots en cfg rep (fs w) 0 (Panels dash)))"
      by (simp add: length_slots)
    from last_paginate_even[OF this, of "home_draws cfg rep dash"]
    show "pgs ! (length (Panels dash) div 2) =
              (if Panels dash = [] then home_draws cfg rep dash else [])"
      unfolding pg by (cases "Panels dash") (simp_all add: length_slots)
  qed
qed

text \<open>
  For three panels the specification puts the title alone on the first page, the first
  two panels on the second and the third panel on a third page. The document has two
  pages, and its first page is not the cover alone: it holds the first two panels too.
\<close>

theorem renderPDF_panel_positions_counterexample:
  "doc_pages (fst (renderPDF env_ok defaultConf ''fonts/'' (rep_ok [panel1, panel2, panel3])
      (dash_of [panel1, panel2, panel3]) world0)) =
   Some
    [[SetX 50, Cell ''Dashboard: X'', DrawBr 20, SetX 50,
      Cell ''Mon Jan 1 10:00:00 UTC 2018 to Mon Jan 1 11:00:00 UTC 2018'',
      SetX 50, SetY 60, Cell ''Row: Cluster, Panel: QPS'',
      Image ''tmp/6ba7b810/images/image1.png'' 50 80 \<lparr>Width = 480, Height = 240\<rparr>,
      SetX 50, SetY 350, Cell ''Row: Cluster, Panel: Stores'',
      Image ''tmp/6ba7b810/images/image2.png'' 50 370 \<lparr>Width = 480, Height = 93\<rparr>],
     [SetX 50, SetY 60, Cell ''Row: KV, Panel: Latency'',
      Image ''tmp/6ba7b810/images/image3.png'' 50 80 \<lparr>Width = 480, Height = 240\<rparr>]] \<and>
   map_option hd
     (doc_pages (fst (renderPDF env_ok defaultConf ''fonts/'' (rep_ok [panel1, panel2, panel3])
        (dash_of [panel1, panel2, panel3]) world0))) \<noteq>
   Some (spec_cover_page defaultConf (rep_ok [panel1, panel2, panel3]) (dash_of [panel1, panel2, panel3]))"
  by code_simp


theorem renderPDF_panel_positions_witness:
  "(\<forall>w p. \<not> WritePdf_fails env_ok w p) \<and>
   doc_pages (fst (renderPDF env_ok defaultConf ''fonts/'' (rep_ok [panel1, panel2, panel3])
                (dash_of [panel1, panel2, panel3]) world0)) =
     Some [home_draws defaultConf (rep_ok [panel1, panel2, panel3]) (dash_of [panel1, panel2, panel3])
             @ slot_draws env_ok defaultConf (rep_ok [panel1, panel2, panel3]) (fs world0) 0 panel1
             @ slot_draws env_ok defaultConf (rep_ok [panel1, panel2, panel3]) (fs world0) 1 panel2,
           slot_draws env_ok defaultConf (rep_ok [panel1, panel2, panel3]) (fs world0) 2 panel3] \<and>
   2 * 1 < length (Panels (dash_of [panel1, panel2, panel3])) \<and>
   [home_draws defaultConf (rep_ok [panel1, panel2, panel3]) (dash_of [panel1, panel2, panel3])
      @ slot_draws env_ok defaultConf (rep_ok [panel1, panel2, panel3]) (fs world0) 0 panel1
      @ slot_draws env_ok defaultConf (rep_ok [panel1, panel2, panel3]) (fs world0) 1 panel2,
    slot_draws env_ok defaultConf (rep_ok [panel1, panel2, panel3]) (fs world0) 2 panel3] ! 1 =
     slot_draws env_ok defaultConf (rep_ok [panel1, panel2, panel3]) (fs world0) 2 panel3 \<and>
   doc_pages (fst (renderPDF env_ok defaultConf ''fonts/'' (rep_ok []) (dash_of []) world0)) =
     Some [home_draws defaultConf (rep_ok []) (dash_of [])] \<and>
   even (length (Panels (dash_of []))) \<and>
   [home_draws defaultConf (rep_ok []) (dash_of [])] ! (length (Panels (dash_of [])) div 2) =
     home_draws defaultConf (rep_ok []) (dash_of [])"
proof -
  have h: "\<forall>w p. \<not> WritePdf_fails env_ok w p"
    by (simp add: env_ok_def)
  have d0: "doc_pages (fst (renderPDF env_ok defaultConf ''fonts/'' (rep_ok []) (dash_of []) world0)) =
              Some [home_draws defaultConf (rep_ok []) (dash_of [])]"
    by code_simp
  have d3: "doc_pages (fst (renderPDF env_ok defaultConf ''fonts/'' (rep_ok [panel1, panel2, panel3])
                (dash_of [panel1, panel2, panel3]) world0)) =
     Some [home_draws defaultConf (rep_ok [panel1, panel2, panel3]) (dash_of [panel1, panel2, panel3])
             @ slot_draws env_ok defaultConf (rep_ok [panel1, panel2, panel3]) (fs world0) 0 panel1
             @ slot_draws env_ok defaultConf (rep_ok [panel1, panel2, panel3]) (fs world0) 1 panel2,
           slot_draws env_ok defaultConf (rep_ok [panel1, panel2, panel3]) (fs world0) 2 panel3]"
    by code_simp
  have k1: "2 * 1 < length (Panels (dash_of [panel1, panel2, panel3]))"
    by (simp add: dash_of_def)
  have e0: "even (length (Panels (dash_of [])))"
    by (simp add: dash_of_def)
  from renderPDF_panel_positions[OF h d3, THEN conjunct1, rule_format, of 1, OF k1]
  have a: "[home_draws defaultConf (rep_ok [panel1, panel2, panel3]) (dash_of [panel1, panel2, panel3])
      @ slot_draws env_ok defaultConf (rep_ok [panel1, panel2, panel3]) (fs world0) 0 panel1
      @ slot_draws env_ok defaultConf (rep_ok [panel1, panel2, panel3]) (fs world0) 1 panel2,
    slot_draws env_ok defaultConf (rep_ok [panel1, panel2, panel3]) (fs world0) 2 panel3] ! 1 =
     slot_draws env_ok defaultConf (rep_ok [panel1, panel2, panel3]) (fs world0) 2 panel3"
    by (simp add: dash_of_def)
  from renderPDF_panel_positions[OF h d0, THEN conjunct2, rule_format, OF e0]
  have b: "[home_draws defaultConf (rep_ok []) (dash_of [])] ! (length (Panels (dash_of [])) div 2) =
     home_draws defaultConf (rep_ok []) (dash_of [])"
    by (simp add: dash_of_def)
  from h d3 k1 a d0 e0 b show ?thesis
    by (intro conjI)
qed

lemma renderPDF_evs_Inr:
  assumes "renderPDF en cfg FontDir rep dash w = (Inr f, w')"
  shows "set (map (place_log en rep (fs w)) (Panels dash)) \<subseteq> set (evs w')"
proof -
  obtain r1 w1 where np: "NewPDF en cfg FontDir (log_Infof ''PDF templates config: %+v\<newline>'' [ACfg cfg] w) = (r1, w1)"
    by (cases "NewPDF en cfg FontDir (log_Infof ''PDF templates config: %+v\<newline>'' [ACfg cfg] w)")
  show ?thesis
  proof (cases r1)
    case (Inl e)
    with np assms show ?thesis by (simp add: renderPDF_def Let_def)
  next
    case (Inr pdf)
    from renderPDF_after_fonts[OF np[unfolded Inr], of rep dash]
    obtain pdf' w2 where
      e2: "evs w2 = evs w @ [EvLog LInfo ''PDF templates config: %+v\<newline>'' [ACfg cfg]] @
                      map (place_log en rep (fs w)) (Panels dash)" and
      rr: "renderPDF en cfg FontDir rep dash w =
             (case os_Open en (pdfPath rep) (WritePdf en (pdfPath rep) pdf' w2) of
                (Inl err, w3) \<Rightarrow> (Inl (Wrap err ''open pdf file''), w3)
              | (Inr outputPDF, w3) \<Rightarrow> (Inr outputPDF, w3))"
      by blast
    have "set (evs w2) \<subseteq> set (evs (snd (os_Open en (pdfPath rep) (WritePdf en (pdfPath rep) pdf' w2))))"
      by (auto simp: os_Open_def WritePdf_def emit_def split: option.splits)
    moreover have "w' = snd (os_Open en (pdfPath rep) (WritePdf en (pdfPath rep) pdf' w2))"
      using assms rr by (auto split: prod.splits sum.splits)
    ultimately show ?thesis using e2 by auto
  qed
qed

text \<open>
  Claim C6. When the fonts load and the finished document can be written and opened,
  \<^verbatim>\<open>renderPDF\<close> returns a document whatever images fail to be placed. Its pages are those
  of the run in which no image fails, without the image commands of the files that fail:
  the number of pages and every other command, the title cell of every panel among them,
  are the same. Every failure is logged with the path of the image, and every pass of the
  loop adds one to the counter.
\<close>

theorem renderPDF_image_failure_not_fatal:
  assumes fa: "AddTTFFont_fault en (Family (Font cfg)) (FontDir @ Ttf (Font cfg)) = None"
    and fo: "SetFont_fault en (Family (Font cfg)) (Size (Font cfg)) = None"
    and wr: "\<forall>w p. \<not> WritePdf_fails en w p"
    and op: "\<forall>w p. Open_fault en w p = None"
  shows "\<exists>f w' pgs0.
           renderPDF en cfg FontDir rep dash w = (Inr f, w') \<and>
           doc_pages (fst (renderPDF (en\<lparr>Image_fault := \<lambda>m q. None\<rparr>) cfg FontDir rep dash w)) = Some pgs0 \<and>
           doc_pages (Inr f) = Some (map (filter (placed en (fs w))) pgs0) \<and>
           length (map (filter (placed en (fs w))) pgs0) = 1 + length (Panels dash) div 2 \<and>
           (\<forall>p\<in>set (Panels dash).
              Cell (panel_title p) \<in> set (concat (map (filter (placed en (fs w))) pgs0))) \<and>
           (\<forall>p\<in>set (Panels dash). \<forall>e.
              Image_fault en (fs w) (imgFilePath rep p) = Some e \<longrightarrow>
              EvLog LError ''rendering image %s to PDF error: %v'' [AStr (imgFilePath rep p), AErr e]
                \<in> set (evs w')) \<and>
           (\<forall>p pdf w0 cnt. snd (snd (place_panel en cfg rep p (pdf, w0, cnt))) = cnt + 1)"
proof -
  define en0 where "en0 = en\<lparr>Image_fault := \<lambda>m q. None\<rparr>"
  define home where "home = home_draws cfg rep dash"
  define P where "P = placed en (fs w)"
  from renderPDF_returns[OF fa fo wr op, of rep dash w]
  obtain f w' where r: "renderPDF en cfg FontDir rep dash w = (Inr f, w')"
    by blast
  have "\<exists>f0 w0'. renderPDF en0 cfg FontDir rep dash w = (Inr f0, w0')"
    using renderPDF_returns[of en0 cfg FontDir rep dash w] fa fo wr op
    by (simp add: en0_def) blast
  then obtain f0 w0' where r0: "renderPDF en0 cfg FontDir rep dash w = (Inr f0, w0')"
    by blast
  define pgs0 where "pgs0 = paginate home (slots en0 cfg rep (fs w) 0 (Panels dash))"
  have wr0: "\<forall>w p. \<not> WritePdf_fails en0 w p"
    using wr by (simp add: en0_def)
  have d0: "doc_pages (fst (renderPDF en0 cfg FontDir rep dash w)) = Some pgs0"
    using renderPDF_Inr[OF wr0 r0] r0 by (simp add: pgs0_def home_def)
  have eq: "paginate home (slots en cfg rep (fs w) 0 (Panels dash)) = map (filter P) pgs0"
    unfolding pgs0_def P_def en0_def home_def
    using slots_filter[of en cfg rep "fs w" 0 "Panels dash"]
      paginate_map_filter[of "placed en (fs w)" "home_draws cfg rep dash"
        "slots (en\<lparr>Image_fault := \<lambda>m q. None\<rparr>) cfg rep (fs w) 0 (Panels dash)"]
    by (simp add: filter_placed_home)
  have d: "doc_pages (Inr f) = Some (map (filter P) pgs0)"
    using renderPDF_Inr[OF wr r] eq by (simp add: home_def)
  have len: "length (map (filter P) pgs0) = 1 + length (Panels dash) div 2"
    unfolding eq[symmetric] by (simp add: length_paginate length_slots)
  have cells: "\<forall>p\<in>set (Panels dash). Cell (panel_title p) \<in> set (concat (map (filter P) pgs0))"
    unfolding eq[symmetric] set_concat_paginate using title_in_slots by blast
  have logs: "\<forall>p\<in>set (Panels dash). \<forall>e.
              Image_fault en (fs w) (imgFilePath rep p) = Some e \<longrightarrow>
              EvLog LError ''rendering image %s to PDF error: %v'' [AStr (imgFilePath rep p), AErr e]
                \<in> set (evs w')"
  proof (intro ballI allI impI)
    fix p e
    assume p: "p \<in> set (Panels dash)" and e: "Image_fault en (fs w) (imgFilePath rep p) = Some e"
    from p have "place_log en rep (fs w) p \<in> set (map (place_log en rep (fs w)) (Panels dash))"
      by simp
    with renderPDF_evs_Inr[OF r] have "place_log en rep (fs w) p \<in> set (evs w')" by blast
    with e show "EvLog LError ''rendering image %s to PDF error: %v'' [AStr (imgFilePath rep p), AErr e]
                \<in> set (evs w')"
      by (simp add: place_log_def)
  qed
  have cnt: "\<forall>p pdf w0 cnt. snd (snd (place_panel en cfg rep p (pdf, w0, cnt))) = cnt + 1"
    by (simp add: place_panel_def Let_def split: prod.splits)
  from r d0 d len cells logs cnt show ?thesis
    unfolding en0_def P_def by blast
qed


theorem renderPDF_image_failure_not_fatal_witness:
  "AddTTFFont_fault env_img_fails (Family (Font defaultConf)) (''fonts/'' @ Ttf (Font defaultConf)) = None \<and>
   SetFont_fault env_img_fails (Family (Font defaultConf)) (Size (Font defaultConf)) = None \<and>
   (\<forall>w p. \<not> WritePdf_fails env_img_fails w p) \<and>
   (\<forall>w p. Open_fault env_img_fails w p = None) \<and>
   panel1 \<in> set (Panels (dash_of [panel1, panel2])) \<and>
   Image_fault env_img_fails (fs world0) (imgFilePath (rep_ok [panel1, panel2]) panel1) =
     Some (ExtError ''unsupported image'') \<and>
   (\<exists>f w' pgs0.
      renderPDF env_img_fails defaultConf ''fonts/'' (rep_ok [panel1, panel2])
        (dash_of [panel1, panel2]) world0 = (Inr f, w') \<and>
      doc_pages (Inr f) = Some (map (filter (placed env_img_fails (fs world0))) pgs0) \<and>
      length (map (filter (placed env_img_fails (fs world0))) pgs0) =
        1 + length (Panels (dash_of [panel1, panel2])) div 2 \<and>
      Cell (panel_title panel1) \<in> set (concat (map (filter (placed env_img_fails (fs world0))) pgs0)) \<and>
      EvLog LError ''rendering image %s to PDF error: %v''
        [AStr (imgFilePath (rep_ok [panel1, panel2]) panel1), AErr (ExtError ''unsupported image'')]
        \<in> set (evs w'))"
proof -
  have fa: "AddTTFFont_fault env_img_fails (Family (Font defaultConf)) (''fonts/'' @ Ttf (Font defaultConf)) = None"
    by (simp add: env_img_fails_def env_ok_def)
  have fo: "SetFont_fault env_img_fails (Family (Font defaultConf)) (Size (Font defaultConf)) = None"
    by (simp add: env_img_fails_def env_ok_def)
  have wr: "\<forall>w p. \<not> WritePdf_fails env_img_fails w p"
    by (simp add: env_img_fails_def env_ok_def)
  have op: "\<forall>w p. Open_fault env_img_fails w p = None"
    by (simp add: env_img_fails_def env_ok_def)
  have m: "panel1 \<in> set (Panels (dash_of [panel1, panel2]))"
    by (simp add: dash_of_def)
  have ip: "imgFilePath (rep_ok [panel1, panel2]) panel1 = ''tmp/6ba7b810/images/image1.png''"
    by code_simp
  have i: "Image_fault env_img_fails (fs world0) (imgFilePath (rep_ok [panel1, panel2]) panel1) =
     Some (ExtError ''unsupported image'')"
    unfolding ip by (simp add: env_img_fails_def)
  from renderPDF_image_failure_not_fatal[OF fa fo wr op, of "rep_ok [panel1, panel2]"
      "dash_of [panel1, panel2]" world0]
  obtain f w' pgs0 where
    r: "renderPDF env_img_fails defaultConf ''fonts/'' (rep_ok [panel1, panel2])
        (dash_of [panel1, panel2]) world0 = (Inr f, w')" and
    d: "doc_pages (Inr f) = Some (map (filter (placed env_img_fails (fs world0))) pgs0)" and
    l: "length (map (filter (placed env_img_fails (fs world0))) pgs0) =
        1 + length (Panels (dash_of [panel1, panel2])) div 2" and
    c: "\<forall>p\<in>set (Panels (dash_of [panel1, panel2])).
          Cell (panel_title p) \<in> set (concat (map (filter (placed env_img_fails (fs world0))) pgs0))" and
    g: "\<forall>p\<in>set (Panels (dash_of [panel1, panel2])). \<forall>e.
          Image_fault env_img_fails (fs world0) (imgFilePath (rep_ok [panel1, panel2]) p) = Some e \<longrightarrow>
          EvLog LError ''rendering image %s to PDF error: %v''
            [AStr (imgFilePath (rep_ok [panel1, panel2]) p), AErr e] \<in> set (evs w')"
    by blast
  from c m have c1: "Cell (panel_title panel1) \<in>
      set (concat (map (filter (placed env_img_fails (fs world0))) pgs0))"
    by blast
  from g m i have g1: "EvLog LError ''rendering image %s to PDF error: %v''
        [AStr (imgFilePath (rep_ok [panel1, panel2]) panel1), AErr (ExtError ''unsupported image'')]
        \<in> set (evs w')"
    by blast
  from fa fo wr op m i r d l c1 g1 show ?thesis
    by blast
qed

section \<open>The fetch stage\<close>

text \<open>
  A call of \<^verbatim>\<open>renderPNG\<close> is one step of its worker: the calls of different workers are
  interleaved as wholes.
\<close>

lemma mset_update_split:
  assumes "i < length xs"
  shows "\<exists>M. mset xs = add_mset (xs ! i) M \<and> (\<forall>v. mset (xs[i := v]) = add_mset v M)"
proof -
  define M where "M = mset xs - {#xs ! i#}"
  have "mset xs = add_mset (xs ! i) M"
    using assms by (simp add: M_def)
  moreover have "mset (xs[i := v]) = add_mset v M" for v
    using assms by (simp add: mset_update M_def)
  ultimately show ?thesis by blast
qed

lemma size_filter_replicate_mset:
  "size (filter_mset P (replicate_mset n x)) = (if P x then n else 0)"
  by (induction n) simp_all

lemma fetched_of_append: "fetched_of (a @ b) = fetched_of a @ fetched_of b"
  by (simp add: fetched_of_def)

lemma written_of_append: "written_of (a @ b) = written_of a @ written_of b"
  by (simp add: written_of_def)

lemma failed_paths_append: "failed_paths rep (a @ b) = failed_paths rep a @ failed_paths rep b"
  by (simp add: failed_paths_def)

lemma logged_of_append: "logged_of (a @ b) = logged_of a @ logged_of b"
  by (simp add: logged_of_def)

lemma go_of_append: "go_of (a @ b) = go_of a @ go_of b"
  by (simp add: go_of_def)

lemma done_of_append: "done_of (a @ b) = done_of a @ done_of b"
  by (simp add: done_of_def)

lemma work_of_append: "work_of (a @ b) = work_of a @ work_of b"
  by (simp add: work_of_def)

lemmas of_append =
  fetched_of_append written_of_append failed_paths_append logged_of_append go_of_append
  done_of_append work_of_append

lemma of_go:
  "fetched_of [EvGo i] = []" "written_of [EvGo i] = []" "failed_paths rep [EvGo i] = []"
  "logged_of [EvGo i] = []" "go_of [EvGo i] = [i]" "done_of [EvGo i] = []" "work_of [EvGo i] = []"
  by (simp_all add: fetched_of_def written_of_def failed_paths_def logged_of_def go_of_def
      done_of_def work_of_def)

lemma of_done:
  "fetched_of [EvWgDone i] = []" "written_of [EvWgDone i] = []" "failed_paths rep [EvWgDone i] = []"
  "logged_of [EvWgDone i] = []" "go_of [EvWgDone i] = []" "done_of [EvWgDone i] = [i]"
  "work_of [EvWgDone i] = []"
  by (simp_all add: fetched_of_def written_of_def failed_paths_def logged_of_def go_of_def
      done_of_def work_of_def)

lemma of_log:
  "fetched_of [EvLog LError ''creating image for panel ID %d error: %v'' [AInt i, AErr e]] = []"
  "written_of [EvLog LError ''creating image for panel ID %d error: %v'' [AInt i, AErr e]] = []"
  "failed_paths rep [EvLog LError ''creating image for panel ID %d error: %v'' [AInt i, AErr e]] = []"
  "logged_of [EvLog LError ''creating image for panel ID %d error: %v'' [AInt i, AErr e]] = [(i, e)]"
  "go_of [EvLog LError ''creating image for panel ID %d error: %v'' [AInt i, AErr e]] = []"
  "done_of [EvLog LError ''creating image for panel ID %d error: %v'' [AInt i, AErr e]] = []"
  by (simp_all add: fetched_of_def written_of_def failed_paths_def logged_of_def go_of_def
      done_of_def)

text \<open>What one call of \<^verbatim>\<open>renderPNG\<close> adds to the record, and what it leaves in the file.\<close>

lemma renderPNG_effect:
  assumes "renderPNG en rep p w = (r, w')"
  shows "\<exists>add. evs w' = evs w @ add \<and> fetched_of add = [p] \<and> logged_of add = [] \<and>
           go_of add = [] \<and> done_of add = [] \<and>
           ((r = None \<and> written_of add = [imgFilePath rep p] \<and> failed_paths rep add = [] \<and>
             add \<noteq> [] \<and> hd add = EvGetPanelPng p True \<and>
             (\<exists>b. GetPanelPng (gClient rep) w p (dashName rep) (time rep) = Inr b \<and>
                  fs w' = (fs w)(imgFilePath rep p \<mapsto> File (Bytes (data b))))) \<or>
            (r \<noteq> None \<and> written_of add = [] \<and> failed_paths rep add = [imgFilePath rep p]))"
proof (cases "GetPanelPng (gClient rep) w p (dashName rep) (time rep)")
  case (Inl err)
  with assms show ?thesis
    by (auto simp: renderPNG_def emit_def fetched_of_def written_of_def failed_paths_def
        logged_of_def go_of_def done_of_def)
next
  case (Inr b)
  define path where "path = imgFilePath rep p"
  define w1 where "w1 = emit (EvGetPanelPng p True) w"
  show ?thesis
  proof (cases "Create_fault en w1 path")
    case (Some e)
    with assms Inr show ?thesis
      by (auto simp: renderPNG_def Let_def os_Create_def body_Close_def emit_def fetched_of_def
          written_of_def failed_paths_def logged_of_def go_of_def done_of_def path_def w1_def)
  next
    case None
    define w2 where "w2 = emit (EvCreate path True) (w1\<lparr>fs := (fs w1)(path \<mapsto> File (Bytes []))\<rparr>)"
    have c: "os_Create en path w1 = (Inr path, w2)"
      using None by (simp add: os_Create_def w2_def)
    show ?thesis
    proof (cases "Write_fault en w2 path")
      case (Some e)
      then have "io_Copy en path b w2 = (Some e, emit (EvCopy path False) w2)"
        by (simp add: io_Copy_def)
      with assms Inr c show ?thesis
        unfolding renderPNG_def Let_def path_def[symmetric] w1_def[symmetric]
        by (auto simp: body_Close_def file_Close_def emit_def fetched_of_def
          written_of_def failed_paths_def logged_of_def go_of_def done_of_def w1_def w2_def)
    next
      case wn: None
      show ?thesis
      proof (cases "read_err b")
        case (Some e)
        then have "io_Copy en path b w2 =
            (Some e, emit (EvCopy path False) (w2\<lparr>fs := (fs w2)(path \<mapsto> File (Bytes (data b)))\<rparr>))"
          using wn by (simp add: io_Copy_def)
        with assms Inr c show ?thesis
          unfolding renderPNG_def Let_def path_def[symmetric] w1_def[symmetric]
          by (auto simp: body_Close_def file_Close_def emit_def fetched_of_def
            written_of_def failed_paths_def logged_of_def go_of_def done_of_def w1_def w2_def)
      next
        case rn: None
        then have "io_Copy en path b w2 =
            (None, emit (EvCopy path True) (w2\<lparr>fs := (fs w2)(path \<mapsto> File (Bytes (data b)))\<rparr>))"
          using wn by (simp add: io_Copy_def)
        with assms Inr c show ?thesis
          unfolding renderPNG_def Let_def path_def[symmetric] w1_def[symmetric]
          by (auto simp: body_Close_def file_Close_def emit_def fetched_of_def
            written_of_def failed_paths_def logged_of_def go_of_def done_of_def w1_def w2_def
            path_def)
      qed
    qed
  qed
qed

lemma since_append:
  assumes "inv_prefix w0 s" and "evs (pw s') = evs (pw s) @ add"
  shows "since w0 s' = since w0 s @ add" and "inv_prefix w0 s'"
proof -
  from assms have e: "evs (pw s') = evs w0 @ (since w0 s @ add)"
    by (simp add: inv_prefix_def)
  then show a: "since w0 s' = since w0 s @ add"
    by (simp add: since_def)
  from e a show "inv_prefix w0 s'"
    by (simp add: inv_prefix_def)
qed

lemma since_same:
  assumes "inv_prefix w0 s" and "pw s' = pw s"
  shows "since w0 s' = since w0 s" and "inv_prefix w0 s'"
  using assms by (simp_all add: since_def inv_prefix_def)

text \<open>The steps of the stage.\<close>

lemma step_cases:
  assumes "i \<le> length (ws s)" and "enabled s i"
  obtains
    (launch) "i = length (ws s)" "launched s < workers" "step en rep i s = launch s"
  | (recv) p ps where "i < length (ws s)" "ws s ! i = WRecv" "panels_ch s = p # ps"
      "step en rep i s = s\<lparr>panels_ch := ps, ws := (ws s)[i := WRender p]\<rparr>"
  | (exit) "i < length (ws s)" "ws s ! i = WRecv" "panels_ch s = []"
      "step en rep i s =
         s\<lparr>ws := (ws s)[i := WDone], wg := wg s - 1, pw := emit (EvWgDone i) (pw s)\<rparr>"
  | (render) p r w' where "i < length (ws s)" "ws s ! i = WRender p"
      "renderPNG en rep p (pw s) = (r, w')"
      "step en rep i s =
         s\<lparr>pw := w', ws := (ws s)[i := (case r of None \<Rightarrow> WRecv | Some e \<Rightarrow> WLog p e)]\<rparr>"
  | (log) p e where "i < length (ws s)" "ws s ! i = WLog p e"
      "step en rep i s =
         s\<lparr>pw := log_Errorf ''creating image for panel ID %d error: %v'' [AInt (ID p), AErr e] (pw s),
           ws := (ws s)[i := WSend e]\<rparr>"
  | (send) e where "i < length (ws s)" "ws s ! i = WSend e" "length (errs_ch s) < errs_cap s"
      "step en rep i s = s\<lparr>errs_ch := errs_ch s @ [Some e], ws := (ws s)[i := WRecv]\<rparr>"
proof (cases "i = length (ws s)")
  case True
  with assms(2) have "launched s < workers" by (simp add: enabled_def)
  with True launch show ?thesis by (simp add: step_def)
next
  case False
  with assms(1) have lt: "i < length (ws s)" by simp
  have st: "step en rep i s = wstep en rep i s" using False by (simp add: step_def)
  show ?thesis
  proof (cases "ws s ! i")
    case WNew
    with assms(2) False show ?thesis by (simp add: enabled_def)
  next
    case WRecv
    show ?thesis
    proof (cases "panels_ch s")
      case Nil
      with WRecv lt st exit show ?thesis by (simp add: wstep_def)
    next
      case (Cons p ps)
      with WRecv lt st recv show ?thesis by (simp add: wstep_def)
    qed
  next
    case (WRender p)
    obtain r w' where r: "renderPNG en rep p (pw s) = (r, w')"
      by (cases "renderPNG en rep p (pw s)")
    have "step en rep i s =
         s\<lparr>pw := w', ws := (ws s)[i := (case r of None \<Rightarrow> WRecv | Some e \<Rightarrow> WLog p e)]\<rparr>"
      unfolding st using WRender r by (cases r) (simp_all add: wstep_def)
    with WRender lt r render show ?thesis by blast
  next
    case (WLog p e)
    with lt st log show ?thesis by (simp add: wstep_def)
  next
    case (WSend e)
    with assms(2) False have "length (errs_ch s) < errs_cap s" by (simp add: enabled_def)
    with WSend lt st send show ?thesis by (simp add: wstep_def)
  next
    case WDone
    with assms(2) False show ?thesis by (simp add: enabled_def)
  qed
qed

lemma sum_update:
  assumes "i < length xs"
  shows "sum_mset (image_mset f (mset (xs[i := v]))) + f (xs ! i) =
         sum_mset (image_mset f (mset xs)) + f v"
proof -
  from mset_update_split[OF assms] obtain M where "mset xs = add_mset (xs ! i) M"
    and "\<And>v. mset (xs[i := v]) = add_mset v M"
    by blast
  then show ?thesis by (simp add: ac_simps)
qed

lemma inv_pool_init: "inv_pool dash (pool_init dash w)"
  by (simp add: inv_pool_def pool_init_def workers_def size_filter_replicate_mset)

lemma inv_pool_update:
  assumes inv: "inv_pool dash s" and i: "i < length (ws s)"
    and old: "ws s ! i \<noteq> WNew" "ws s ! i \<noteq> WDone" and new: "v \<noteq> WNew"
    and w: "ws s' = (ws s)[i := v]" and l: "launched s' = launched s"
    and c: "errs_cap s' = errs_cap s"
    and g: "wg s' = (if v = WDone then wg s - 1 else wg s)"
    and d: "v = WDone \<longrightarrow> panels_ch s' = []" and q: "panels_ch s = [] \<longrightarrow> panels_ch s' = []"
  shows "inv_pool dash s'"
proof -
  from mset_update_split[OF i] obtain M where m: "mset (ws s) = add_mset (ws s ! i) M"
    and u: "\<And>v. mset ((ws s)[i := v]) = add_mset v M"
    by blast
  have sm: "set (ws s) = insert (ws s ! i) (set_mset M)"
    using arg_cong[OF m, of set_mset] by simp
  have su: "set ((ws s)[i := v]) = insert v (set_mset M)"
    using arg_cong[OF u[of v], of set_mset] by simp
  from inv have len: "length (ws s) = workers"
    and wg: "wg s = int (size (filter_mset (\<lambda>x. x \<noteq> WDone) (add_mset (ws s ! i) M)))"
    and cap: "errs_cap s = length (Panels dash)"
    and dn: "WDone \<in> insert (ws s ! i) (set_mset M) \<longrightarrow> panels_ch s = []"
    and la: "launched s \<le> workers"
    and nw: "\<forall>k<workers. (ws s ! k = WNew) = (launched s \<le> k)"
    unfolding inv_pool_def sm m by simp_all
  have a: "length (ws s') = workers" using len w by simp
  have b: "wg s' = int (size (filter_mset (\<lambda>x. x \<noteq> WDone) (mset (ws s'))))"
    unfolding w u g wg using old by simp
  have e: "WDone \<in> set (ws s') \<longrightarrow> panels_ch s' = []"
    unfolding w su using dn d q by auto
  have f: "\<forall>k<workers. (ws s' ! k = WNew) = (launched s' \<le> k)"
  proof (intro allI impI)
    fix k assume k: "k < workers"
    show "(ws s' ! k = WNew) = (launched s' \<le> k)"
    proof (cases "k = i")
      case True
      with nw k old have "\<not> launched s \<le> k" by blast
      with True i new show ?thesis unfolding w l by simp
    next
      case False
      with nw k show ?thesis unfolding w l by simp
    qed
  qed
  from a b e f cap c la l show ?thesis
    by (simp add: inv_pool_def)
qed

lemma inv_pool_launch:
  assumes inv: "inv_pool dash s" and l: "launched s < workers"
  shows "inv_pool dash (launch s)" and "ws s ! launched s = WNew" and "launched s < length (ws s)"
proof -
  from inv have len: "length (ws s) = workers"
    and nw: "\<forall>k<workers. (ws s ! k = WNew) = (launched s \<le> k)"
    by (simp_all add: inv_pool_def)
  from len l show i: "launched s < length (ws s)" by simp
  from nw l show o: "ws s ! launched s = WNew" by blast
  from mset_update_split[OF i] o obtain M where m: "mset (ws s) = add_mset WNew M"
    and u: "\<And>v. mset ((ws s)[launched s := v]) = add_mset v M"
    by auto
  have sm: "set (ws s) = insert WNew (set_mset M)"
    using arg_cong[OF m, of set_mset] by simp
  have su: "set ((ws s)[launched s := WRecv]) = insert WRecv (set_mset M)"
    using arg_cong[OF u[of WRecv], of set_mset] by simp
  from inv have wg: "wg s = int (size (filter_mset (\<lambda>x. x \<noteq> WDone) (add_mset WNew M)))"
    and cap: "errs_cap s = length (Panels dash)"
    and dn: "WDone \<in> insert WNew (set_mset M) \<longrightarrow> panels_ch s = []"
    unfolding inv_pool_def sm m by simp_all
  have f: "\<forall>k<workers. (((ws s)[launched s := WRecv]) ! k = WNew) = (Suc (launched s) \<le> k)"
  proof (intro allI impI)
    fix k assume k: "k < workers"
    show "(((ws s)[launched s := WRecv]) ! k = WNew) = (Suc (launched s) \<le> k)"
      using nw k i by (cases "k = launched s") auto
  qed
  show "inv_pool dash (launch s)"
    unfolding inv_pool_def launch_def using len wg cap dn l f
    by (simp add: u su)
qed

lemma inv_pool_step:
  assumes inv: "inv_pool dash s" and i: "i \<le> length (ws s)" and en: "enabled s i"
  shows "inv_pool dash (step en' rep i s)"
  using i en
proof (cases rule: step_cases[where en = en' and rep = rep])
  case launch
  then show ?thesis using inv_pool_launch(1)[OF inv] by simp
next
  case (recv p ps)
  from inv recv(3) have "WDone \<notin> set (ws s)" by (auto simp: inv_pool_def)
  then show ?thesis
    unfolding recv(4) using recv(1,2,3)
    by (intro inv_pool_update[OF inv recv(1), where v = "WRender p"]) simp_all
next
  case exit
  show ?thesis
    unfolding exit(4) using exit(1,2,3)
    by (intro inv_pool_update[OF inv exit(1), where v = WDone]) simp_all
next
  case (render p r w')
  show ?thesis
    unfolding render(4) using render(1,2)
    by (intro inv_pool_update[OF inv render(1),
          where v = "case r of None \<Rightarrow> WRecv | Some e \<Rightarrow> WLog p e"])
       (simp_all split: option.splits)
next
  case (log p e)
  show ?thesis
    unfolding log(3) using log(1,2)
    by (intro inv_pool_update[OF inv log(1), where v = "WSend e"]) simp_all
next
  case (send e)
  show ?thesis
    unfolding send(4) using send(1,2)
    by (intro inv_pool_update[OF inv send(1), where v = WRecv]) simp_all
qed

lemma imgFilePath_ID: "imgFilePath rep p = imgFilePath_of_ID rep (ID p)"
  by (simp add: imgFilePath_def imgFilePath_of_ID_def)

text \<open>
  The steps again, with what each adds to the record: the worker that moves, its place
  before and after, and the other parts of the state.
\<close>

lemma step_trace_cases:
  assumes pre: "inv_prefix w0 s" and pool: "inv_pool dash s"
    and i: "i \<le> length (ws s)" and ena: "enabled s i"
  obtains
    (launch) "launched s < length (ws s)" "ws s ! launched s = WNew"
      "ws (step en rep i s) = (ws s)[launched s := WRecv]"
      "since w0 (step en rep i s) = since w0 s @ [EvGo (launched s)]"
      "launched (step en rep i s) = Suc (launched s)"
      "panels_ch (step en rep i s) = panels_ch s" "errs_ch (step en rep i s) = errs_ch s"
      "fs (pw (step en rep i s)) = fs (pw s)"
  | (recv) p ps where "i < length (ws s)" "ws s ! i = WRecv"
      "ws (step en rep i s) = (ws s)[i := WRender p]"
      "since w0 (step en rep i s) = since w0 s"
      "launched (step en rep i s) = launched s"
      "panels_ch s = p # ps" "panels_ch (step en rep i s) = ps"
      "errs_ch (step en rep i s) = errs_ch s"
      "fs (pw (step en rep i s)) = fs (pw s)"
  | (exit) "i < length (ws s)" "ws s ! i = WRecv"
      "ws (step en rep i s) = (ws s)[i := WDone]"
      "since w0 (step en rep i s) = since w0 s @ [EvWgDone i]"
      "launched (step en rep i s) = launched s"
      "panels_ch s = []" "panels_ch (step en rep i s) = []"
      "errs_ch (step en rep i s) = errs_ch s"
      "fs (pw (step en rep i s)) = fs (pw s)"
  | (ok) p add b where "i < length (ws s)" "ws s ! i = WRender p"
      "ws (step en rep i s) = (ws s)[i := WRecv]"
      "since w0 (step en rep i s) = since w0 s @ add"
      "fetched_of add = [p]" "written_of add = [imgFilePath rep p]" "failed_paths rep add = []"
      "logged_of add = []" "go_of add = []" "done_of add = []"
      "launched (step en rep i s) = launched s"
      "panels_ch (step en rep i s) = panels_ch s" "errs_ch (step en rep i s) = errs_ch s"
      "GetPanelPng (gClient rep) (pw s) p (dashName rep) (time rep) = Inr b"
      "fs (pw (step en rep i s)) = (fs (pw s))(imgFilePath rep p \<mapsto> File (Bytes (data b)))"
      "add \<noteq> []" "hd add = EvGetPanelPng p True"
  | (fail) p e add where "i < length (ws s)" "ws s ! i = WRender p"
      "ws (step en rep i s) = (ws s)[i := WLog p e]"
      "since w0 (step en rep i s) = since w0 s @ add"
      "fetched_of add = [p]" "written_of add = []" "failed_paths rep add = [imgFilePath rep p]"
      "logged_of add = []" "go_of add = []" "done_of add = []"
      "launched (step en rep i s) = launched s"
      "panels_ch (step en rep i s) = panels_ch s" "errs_ch (step en rep i s) = errs_ch s"
      "fst (renderPNG en rep p (pw s)) = Some e"
  | (log) p e where "i < length (ws s)" "ws s ! i = WLog p e"
      "ws (step en rep i s) = (ws s)[i := WSend e]"
      "since w0 (step en rep i s) =
         since w0 s @ [EvLog LError ''creating image for panel ID %d error: %v'' [AInt (ID p), AErr e]]"
      "launched (step en rep i s) = launched s"
      "panels_ch (step en rep i s) = panels_ch s" "errs_ch (step en rep i s) = errs_ch s"
      "fs (pw (step en rep i s)) = fs (pw s)"
  | (send) e where "i < length (ws s)" "ws s ! i = WSend e"
      "ws (step en rep i s) = (ws s)[i := WRecv]"
      "since w0 (step en rep i s) = since w0 s"
      "launched (step en rep i s) = launched s"
      "panels_ch (step en rep i s) = panels_ch s"
      "errs_ch (step en rep i s) = errs_ch s @ [Some e]"
      "fs (pw (step en rep i s)) = fs (pw s)"
  using i ena
proof (cases rule: step_cases[where en = en and rep = rep])
  case 1: launch
  from inv_pool_launch(2,3)[OF pool 1(2)] have o: "ws s ! launched s = WNew"
    and l: "launched s < length (ws s)" by simp_all
  have "evs (pw (step en rep i s)) = evs (pw s) @ [EvGo (launched s)]"
    unfolding 1(3) by (simp add: launch_def emit_def)
  from since_append(1)[OF pre this] l o launch show ?thesis
    unfolding 1(3) by (simp add: launch_def emit_def)
next
  case 2: (recv p ps)
  have "pw (step en rep i s) = pw s" unfolding 2(4) by simp
  from since_same(1)[OF pre this] 2 recv show ?thesis by simp
next
  case 3: exit
  have "evs (pw (step en rep i s)) = evs (pw s) @ [EvWgDone i]"
    unfolding 3(4) by (simp add: emit_def)
  from since_append(1)[OF pre this] 3 exit show ?thesis by (simp add: emit_def)
next
  case 4: (render p r w')
  from renderPNG_effect[OF 4(3)] obtain add where
    a: "evs w' = evs (pw s) @ add" and
    b: "fetched_of add = [p]" "logged_of add = []" "go_of add = []" "done_of add = []" and
    c: "(r = None \<and> written_of add = [imgFilePath rep p] \<and> failed_paths rep add = [] \<and>
             add \<noteq> [] \<and> hd add = EvGetPanelPng p True \<and>
             (\<exists>b. GetPanelPng (gClient rep) (pw s) p (dashName rep) (time rep) = Inr b \<and>
                  fs w' = (fs (pw s))(imgFilePath rep p \<mapsto> File (Bytes (data b))))) \<or>
            (r \<noteq> None \<and> written_of add = [] \<and> failed_paths rep add = [imgFilePath rep p])"
    by blast
  have "evs (pw (step en rep i s)) = evs (pw s) @ add"
    unfolding 4(4) using a by simp
  note e = since_append(1)[OF pre this]
  show ?thesis
  proof (cases r)
    case None
    with c obtain b where "written_of add = [imgFilePath rep p]" "failed_paths rep add = []"
      "add \<noteq> []" "hd add = EvGetPanelPng p True"
      "GetPanelPng (gClient rep) (pw s) p (dashName rep) (time rep) = Inr b"
      "fs w' = (fs (pw s))(imgFilePath rep p \<mapsto> File (Bytes (data b)))"
      by blast
    with None e b 4 ok[of p add b] show ?thesis by simp
  next
    case (Some err)
    with c have "written_of add = []" "failed_paths rep add = [imgFilePath rep p]"
      by simp_all
    with Some e b 4 fail[of p err add] show ?thesis by simp
  qed
next
  case 5: (log p e)
  have "evs (pw (step en rep i s)) = evs (pw s) @
      [EvLog LError ''creating image for panel ID %d error: %v'' [AInt (ID p), AErr e]]"
    unfolding 5(3) by (simp add: log_Errorf_def emit_def)
  from since_append(1)[OF pre this] 5 log[of p e] show ?thesis
    by (simp add: log_Errorf_def emit_def)
next
  case 6: (send e)
  have "pw (step en rep i s) = pw s" unfolding 6(4) by simp
  from since_same(1)[OF pre this] 6 send[of e] show ?thesis by simp
qed

lemma inv_prefix_step:
  assumes pre: "inv_prefix w0 s" and i: "i \<le> length (ws s)" and ena: "enabled s i"
  shows "inv_prefix w0 (step en rep i s)"
  using i ena
proof (cases rule: step_cases[where en = en and rep = rep])
  case launch
  have "evs (pw (step en rep i s)) = evs (pw s) @ [EvGo (launched s)]"
    unfolding launch(3) by (simp add: launch_def emit_def)
  from since_append(2)[OF pre this] show ?thesis .
next
  case (recv p ps)
  have "pw (step en rep i s) = pw s" unfolding recv(4) by simp
  from since_same(2)[OF pre this] show ?thesis .
next
  case exit
  have "evs (pw (step en rep i s)) = evs (pw s) @ [EvWgDone i]"
    unfolding exit(4) by (simp add: emit_def)
  from since_append(2)[OF pre this] show ?thesis .
next
  case (render p r w')
  from renderPNG_effect[OF render(3)] obtain add where "evs w' = evs (pw s) @ add"
    by blast
  then have "evs (pw (step en rep i s)) = evs (pw s) @ add"
    unfolding render(4) by simp
  from since_append(2)[OF pre this] show ?thesis .
next
  case (log p e)
  have "evs (pw (step en rep i s)) = evs (pw s) @
      [EvLog LError ''creating image for panel ID %d error: %v'' [AInt (ID p), AErr e]]"
    unfolding log(3) by (simp add: log_Errorf_def emit_def)
  from since_append(2)[OF pre this] show ?thesis .
next
  case (send e)
  have "pw (step en rep i s) = pw s" unfolding send(4) by simp
  from since_same(2)[OF pre this] show ?thesis .
qed

lemma inv_panels_step:
  assumes inv: "inv_panels dash w0 s" and pre: "inv_prefix w0 s" and pool: "inv_pool dash s"
    and i: "i \<le> length (ws s)" and ena: "enabled s i"
  shows "inv_panels dash w0 (step en rep i s)"
  using pre pool i ena
proof (cases rule: step_trace_cases[where en = en and rep = rep])
  case launch
  from sum_update[OF launch(1), of in_flight WRecv] launch inv show ?thesis
    by (simp add: inv_panels_def of_append of_go)
next
  case (recv p ps)
  from sum_update[OF recv(1), of in_flight "WRender p"] recv inv show ?thesis
    by (simp add: inv_panels_def)
next
  case exit
  from sum_update[OF exit(1), of in_flight WDone] exit inv show ?thesis
    by (simp add: inv_panels_def of_append of_done)
next
  case (ok p add b)
  from sum_update[OF ok(1), of in_flight WRecv, symmetric] ok inv show ?thesis
    by (simp add: inv_panels_def of_append)
next
  case (fail p e add)
  from sum_update[OF fail(1), of in_flight "WLog p e", symmetric] fail inv show ?thesis
    by (simp add: inv_panels_def of_append)
next
  case (log p e)
  from sum_update[OF log(1), of in_flight "WSend e"] log inv show ?thesis
    by (simp add: inv_panels_def of_append of_log)
next
  case (send e)
  from sum_update[OF send(1), of in_flight WRecv] send inv show ?thesis
    by (simp add: inv_panels_def)
qed

lemma inv_paths_step:
  assumes inv: "inv_paths rep w0 s" and pre: "inv_prefix w0 s" and pool: "inv_pool dash s"
    and i: "i \<le> length (ws s)" and ena: "enabled s i"
  shows "inv_paths rep w0 (step en rep i s)"
  using pre pool i ena
proof (cases rule: step_trace_cases[where en = en and rep = rep])
  case launch
  with inv show ?thesis by (simp add: inv_paths_def of_append of_go)
next
  case (recv p ps)
  with inv show ?thesis by (simp add: inv_paths_def)
next
  case exit
  with inv show ?thesis by (simp add: inv_paths_def of_append of_done)
next
  case (ok p add b)
  with inv show ?thesis by (simp add: inv_paths_def of_append)
next
  case (fail p e add)
  with inv show ?thesis by (simp add: inv_paths_def of_append)
next
  case (log p e)
  with inv show ?thesis by (simp add: inv_paths_def of_append of_log)
next
  case (send e)
  with inv show ?thesis by (simp add: inv_paths_def)
qed

lemma inv_log_step:
  assumes inv: "inv_log rep w0 s" and pre: "inv_prefix w0 s" and pool: "inv_pool dash s"
    and i: "i \<le> length (ws s)" and ena: "enabled s i"
  shows "inv_log rep w0 (step en rep i s)"
  using pre pool i ena
proof (cases rule: step_trace_cases[where en = en and rep = rep])
  case launch
  from sum_update[OF launch(1), of unlogged WRecv] launch inv show ?thesis
    by (simp add: inv_log_def of_append of_go)
next
  case (recv p ps)
  from sum_update[OF recv(1), of unlogged "WRender p"] recv inv show ?thesis
    by (simp add: inv_log_def)
next
  case exit
  from sum_update[OF exit(1), of unlogged WDone] exit inv show ?thesis
    by (simp add: inv_log_def of_append of_done)
next
  case (ok p add b)
  from sum_update[OF ok(1), of unlogged WRecv] ok inv show ?thesis
    by (simp add: inv_log_def of_append)
next
  case (fail p e add)
  from sum_update[OF fail(1), of unlogged "WLog p e"] fail inv show ?thesis
    by (simp add: inv_log_def of_append imgFilePath_ID)
next
  case (log p e)
  from sum_update[OF log(1), of unlogged "WSend e", symmetric] log inv show ?thesis
    by (simp add: inv_log_def of_append of_log)
next
  case (send e)
  from sum_update[OF send(1), of unlogged WRecv] send inv show ?thesis
    by (simp add: inv_log_def)
qed

lemma inv_errs_step:
  assumes inv: "inv_errs w0 s" and pre: "inv_prefix w0 s" and pool: "inv_pool dash s"
    and i: "i \<le> length (ws s)" and ena: "enabled s i"
  shows "inv_errs w0 (step en rep i s)"
  using pre pool i ena
proof (cases rule: step_trace_cases[where en = en and rep = rep])
  case launch
  from sum_update[OF launch(1), of owed WRecv] launch inv show ?thesis
    by (simp add: inv_errs_def of_append of_go)
next
  case (recv p ps)
  from sum_update[OF recv(1), of owed "WRender p"] recv inv show ?thesis
    by (simp add: inv_errs_def)
next
  case exit
  from sum_update[OF exit(1), of owed WDone] exit inv show ?thesis
    by (simp add: inv_errs_def of_append of_done)
next
  case (ok p add b)
  from sum_update[OF ok(1), of owed WRecv] ok inv show ?thesis
    by (simp add: inv_errs_def of_append)
next
  case (fail p e add)
  from sum_update[OF fail(1), of owed "WLog p e"] fail inv show ?thesis
    by (simp add: inv_errs_def of_append)
next
  case (log p e)
  from sum_update[OF log(1), of owed "WSend e"] log inv show ?thesis
    by (simp add: inv_errs_def of_append of_log)
next
  case (send e)
  from sum_update[OF send(1), of owed WRecv, symmetric] send inv show ?thesis
    by (simp add: inv_errs_def)
qed

lemma inv_life_update:
  assumes inv: "inv_life w0 s" and k: "k < length (ws s)"
    and w: "ws s' = (ws s)[k := v]"
    and e: "since w0 s' = since w0 s @ add"
    and g: "go_of add = [0..<launched s'] \<and> launched s = 0 \<or>
            go_of add = [] \<and> launched s' = launched s \<or>
            go_of add = [launched s] \<and> launched s' = Suc (launched s)"
    and d: "done_of add = [] \<and> (v = WDone) = (ws s ! k = WDone) \<or>
            done_of add = [k] \<and> v = WDone \<and> ws s ! k \<noteq> WDone"
  shows "inv_life w0 s'"
proof -
  from inv have a: "go_of (since w0 s) = [0..<launched s]"
    and b: "\<forall>j<length (ws s). count_list (done_of (since w0 s)) j = (if ws s ! j = WDone then 1 else 0)"
    and c: "set (done_of (since w0 s)) \<subseteq> {..<length (ws s)}"
    by (simp_all add: inv_life_def)
  have a': "go_of (since w0 s') = [0..<launched s']"
    unfolding e go_of_append a using g by auto
  have b': "\<forall>j<length (ws s'). count_list (done_of (since w0 s')) j =
              (if ws s' ! j = WDone then 1 else 0)"
  proof (intro allI impI)
    fix j assume "j < length (ws s')"
    then have j: "j < length (ws s)" using w by simp
    show "count_list (done_of (since w0 s')) j = (if ws s' ! j = WDone then 1 else 0)"
      unfolding e done_of_append w using b j k d
      by (cases "j = k") auto
  qed
  have c': "set (done_of (since w0 s')) \<subseteq> {..<length (ws s')}"
    unfolding e done_of_append w using c k d by auto
  from a' b' c' show ?thesis by (simp add: inv_life_def)
qed

lemma inv_life_step:
  assumes inv: "inv_life w0 s" and pre: "inv_prefix w0 s" and pool: "inv_pool dash s"
    and i: "i \<le> length (ws s)" and ena: "enabled s i"
  shows "inv_life w0 (step en rep i s)"
  using pre pool i ena
proof (cases rule: step_trace_cases[where en = en and rep = rep])
  case launch
  show ?thesis
    by (rule inv_life_update[OF inv launch(1) launch(3) launch(4)])
       (simp_all add: of_go launch)
next
  case (recv p ps)
  show ?thesis
    by (rule inv_life_update[OF inv recv(1) recv(3), where add = "[]"])
       (simp_all add: recv go_of_def done_of_def)
next
  case exit
  show ?thesis
    by (rule inv_life_update[OF inv exit(1) exit(3) exit(4)])
       (simp_all add: of_done exit)
next
  case (ok p add b)
  show ?thesis
    by (rule inv_life_update[OF inv ok(1) ok(3) ok(4)]) (simp_all add: ok)
next
  case (fail p e add)
  show ?thesis
    by (rule inv_life_update[OF inv fail(1) fail(3) fail(4)]) (simp_all add: fail)
next
  case (log p e)
  show ?thesis
    by (rule inv_life_update[OF inv log(1) log(3) log(4)]) (simp_all add: log of_log)
next
  case (send e)
  show ?thesis
    by (rule inv_life_update[OF inv send(1) send(3), where add = "[]"])
       (simp_all add: send go_of_def done_of_def)
qed

lemma sum_replicate_empty:
  "f x = {#} \<Longrightarrow> sum_mset (image_mset f (mset (replicate n x))) = {#}"
  by (induction n) simp_all

lemma since_init: "since w (pool_init dash w) = []"
  by (simp add: since_def pool_init_def)

lemma of_nil:
  "fetched_of [] = []" "written_of [] = []" "failed_paths rep [] = []" "logged_of [] = []"
  "go_of [] = []" "done_of [] = []" "work_of [] = []"
  by (simp_all add: fetched_of_def written_of_def failed_paths_def logged_of_def go_of_def
      done_of_def work_of_def)

lemma inv_all_init: "inv_all rep dash w (pool_init dash w)"
proof -
  have ws: "ws (pool_init dash w) = replicate workers WNew"
    and pc: "panels_ch (pool_init dash w) = Panels dash"
    and ec: "errs_ch (pool_init dash w) = []"
    and la: "launched (pool_init dash w) = 0"
    by (simp_all add: pool_init_def)
  have "inv_prefix w (pool_init dash w)"
    by (simp add: inv_prefix_def since_init) (simp add: pool_init_def)
  moreover have "inv_panels dash w (pool_init dash w)"
    by (simp add: inv_panels_def since_init of_nil ws pc sum_replicate_empty)
  moreover have "inv_paths rep w (pool_init dash w)"
    by (simp add: inv_paths_def since_init of_nil)
  moreover have "inv_log rep w (pool_init dash w)"
    by (simp add: inv_log_def since_init of_nil ws sum_replicate_empty)
  moreover have "inv_errs w (pool_init dash w)"
    by (simp add: inv_errs_def since_init of_nil ws ec sum_replicate_empty)
  moreover have "inv_life w (pool_init dash w)"
    by (simp add: inv_life_def since_init of_nil ws la)
  ultimately show ?thesis
    using inv_pool_init[of dash w] by (simp add: inv_all_def)
qed

lemma inv_all_step:
  assumes "inv_all rep dash w0 s" and "i \<le> length (ws s)" and "enabled s i"
  shows "inv_all rep dash w0 (step en rep i s)"
proof -
  from assms(1) have a: "inv_pool dash s" "inv_prefix w0 s" "inv_panels dash w0 s"
    "inv_paths rep w0 s" "inv_log rep w0 s" "inv_errs w0 s" "inv_life w0 s"
    by (simp_all add: inv_all_def)
  note r = assms(2,3)
  from inv_pool_step[OF a(1) r] inv_prefix_step[OF a(2) r]
    inv_panels_step[OF a(3) a(2) a(1) r] inv_paths_step[OF a(4) a(2) a(1) r]
    inv_log_step[OF a(5) a(2) a(1) r] inv_errs_step[OF a(6) a(2) a(1) r]
    inv_life_step[OF a(7) a(2) a(1) r]
  show ?thesis by (simp add: inv_all_def)
qed

text \<open>Whatever the schedule, the actor that moves is one that can move.\<close>

lemma pick_runnable:
  assumes "runnable s \<noteq> []"
  shows "pick sched (runnable s) \<le> length (ws s)" and "enabled s (pick sched (runnable s))"
proof -
  have "pick sched (runnable s) \<in> set (runnable s)"
    unfolding pick_def using assms by (intro nth_mem) simp
  then show "pick sched (runnable s) \<le> length (ws s)" and "enabled s (pick sched (runnable s))"
    by (simp_all add: runnable_def del: upt_Suc)
qed

lemma run_preserves:
  "(\<forall>s i. P s \<longrightarrow> i \<le> length (ws s) \<longrightarrow> enabled s i \<longrightarrow> P (step en rep i s)) \<Longrightarrow> P s \<Longrightarrow>
   P (run en rep sched s)"
proof (induction en rep sched s rule: run.induct)
  case (1 en rep sched s)
  show ?case
  proof (cases "runnable s = []")
    case True
    then show ?thesis using 1(3) by (subst run.simps) simp
  next
    case False
    from pick_runnable[OF False] 1(2,3)
    have "P (step en rep (pick sched (runnable s)) s)" by blast
    from 1(1)[OF False 1(2) this] False show ?thesis by (subst run.simps) simp
  qed
qed

lemma run_final: "runnable (run en rep sched s) = []"
proof (induction en rep sched s rule: run.induct)
  case (1 en rep sched s)
  show ?case
  proof (cases "runnable s = []")
    case True
    then show ?thesis by (subst run.simps) simp
  next
    case False
    with 1 show ?thesis by (subst run.simps) simp
  qed
qed

lemma inv_all_run: "inv_all rep dash w (run en rep sched (pool_init dash w))"
proof (rule run_preserves)
  show "\<forall>s i. inv_all rep dash w s \<longrightarrow> i \<le> length (ws s) \<longrightarrow> enabled s i \<longrightarrow>
          inv_all rep dash w (step en rep i s)"
    using inv_all_step by blast
  show "inv_all rep dash w (pool_init dash w)"
    by (rule inv_all_init)
qed

text \<open>A worker waiting to send finds room on the channel of errors.\<close>

lemma send_never_blocks:
  assumes inv: "inv_all rep dash w0 s" and k: "k < length (ws s)" and st: "ws s ! k = WSend e"
  shows "length (errs_ch s) < errs_cap s"
proof -
  from inv have cap: "errs_cap s = length (Panels dash)"
    and ipa: "inv_panels dash w0 s" and ipt: "inv_paths rep w0 s"
    and il: "inv_log rep w0 s" and ie: "inv_errs w0 s"
    by (simp_all add: inv_all_def inv_pool_def)
  from mset_update_split[OF k] st obtain M where m: "mset (ws s) = add_mset (WSend e) M"
    by auto
  from arg_cong[OF ie[unfolded inv_errs_def], of size]
  have "length (errs_ch s) < length (logged_of (since w0 s))"
    by (simp add: m)
  also from arg_cong[OF il[unfolded inv_log_def], of size]
  have "length (logged_of (since w0 s)) \<le> length (failed_paths rep (since w0 s))"
    by simp
  also from arg_cong[OF ipt[unfolded inv_paths_def], of size]
  have "length (failed_paths rep (since w0 s)) \<le> length (fetched_of (since w0 s))"
    by simp
  also from arg_cong[OF ipa[unfolded inv_panels_def], of size]
  have "length (fetched_of (since w0 s)) \<le> length (Panels dash)"
    by simp
  finally show ?thesis by (simp add: cap)
qed

text \<open>When no actor can move, all workers were started and all have finished.\<close>

lemma final_all_done:
  assumes inv: "inv_all rep dash w0 s" and fin: "runnable s = []"
  shows "launched s = workers" and "ws s = replicate workers WDone"
proof -
  from inv have len: "length (ws s) = workers" and le: "launched s \<le> workers"
    and es: "\<forall>k<workers. (ws s ! k = WNew) = (launched s \<le> k)"
    by (simp_all add: inv_all_def inv_pool_def)
  have none: "\<not> enabled s i" if "i \<le> length (ws s)" for i
  proof
    assume "enabled s i"
    with that have "i \<in> set (runnable s)"
      by (simp add: runnable_def del: upt_Suc)
    with fin show False by simp
  qed
  from none[of "length (ws s)"] have "\<not> launched s < workers"
    by (simp add: enabled_def)
  with le show l: "launched s = workers" by simp
  have "ws s ! k = WDone" if k: "k < workers" for k
  proof -
    from k len have kl: "k < length (ws s)" by simp
    from es k l have nn: "ws s ! k \<noteq> WNew" by simp
    from none[of k] kl have ne: "\<not> enabled s k" by simp
    show ?thesis
    proof (cases "ws s ! k")
      case (WSend e)
      from send_never_blocks[OF inv kl WSend] ne kl WSend show ?thesis
        by (simp add: enabled_def)
    qed (use nn ne kl in \<open>simp_all add: enabled_def\<close>)
  qed
  with len show "ws s = replicate workers WDone"
    by (intro nth_equalityI) simp_all
qed

lemma count_list_upt: "count_list [0..<n] k = (if k < n then 1 else 0)"
  by (induction n) simp_all

lemma sum_replicate_mset_empty: "sum_mset (replicate_mset n ({#} :: 'a multiset)) = {#}"
  by (induction n) simp_all

lemma mset_done_all:
  assumes c: "\<forall>k<n. count_list xs k = 1" and s: "set xs \<subseteq> {..<n}"
  shows "mset xs = mset [0..<n]"
proof (rule multiset_eqI)
  fix k
  show "count (mset xs) k = count (mset [0..<n]) k"
  proof (cases "k < n")
    case True
    with c show ?thesis by (simp add: count_mset count_list_upt del: mset_upt)
  next
    case False
    with s have "k \<notin> set xs" by auto
    with False show ?thesis by (simp add: count_mset count_list_upt count_list_0_iff del: mset_upt)
  qed
qed

lemma drain_all_Some:
  assumes "\<forall>x\<in>set xs. x \<noteq> None"
  shows "drain xs = (case xs of [] \<Rightarrow> None | x # rest \<Rightarrow> x)"
  using assms by (cases xs) (auto split: option.splits)

text \<open>The state in which the stage ends, whatever the schedule.\<close>

lemma run_result:
  fixes en rep sched dash w
  defines "s \<equiv> run en rep sched (pool_init dash w)"
  defines "es \<equiv> since w s"
  shows "wg s = 0"
    and "evs (pw s) = evs w @ es"
    and "go_of es = [0..<workers]"
    and "mset (done_of es) = mset [0..<workers]"
    and "mset (fetched_of es) = mset (Panels dash)"
    and "mset (written_of es) + mset (failed_paths rep es) =
           image_mset (imgFilePath rep) (mset (Panels dash))"
    and "image_mset (\<lambda>(i, e). imgFilePath_of_ID rep i) (mset (logged_of es)) =
           mset (failed_paths rep es)"
    and "mset (errs_ch s) = image_mset (\<lambda>(i, e). Some e) (mset (logged_of es))"
    and "(drain (errs_ch s) \<noteq> None) = (failed_paths rep es \<noteq> [])"
    and "drain (errs_ch s) = (case errs_ch s of [] \<Rightarrow> None | x # rest \<Rightarrow> x)"
proof -
  have inv: "inv_all rep dash w s"
    unfolding s_def by (rule inv_all_run)
  have fin: "runnable s = []"
    unfolding s_def by (rule run_final)
  note d = final_all_done[OF inv fin]
  from inv have ip: "inv_pool dash s" and ipr: "inv_prefix w s" and ipa: "inv_panels dash w s"
    and ipt: "inv_paths rep w s" and il: "inv_log rep w s" and ie: "inv_errs w s"
    and ili: "inv_life w s"
    by (simp_all add: inv_all_def)
  from ip show "wg s = 0"
    by (simp add: inv_pool_def d(2) size_filter_replicate_mset)
  from ipr show "evs (pw s) = evs w @ es"
    by (simp add: inv_prefix_def es_def)
  from ili show "go_of es = [0..<workers]"
    by (simp add: inv_life_def es_def d(1))
  from ili have "\<forall>k<workers. count_list (done_of es) k = 1"
    and "set (done_of es) \<subseteq> {..<workers}"
    by (simp_all add: inv_life_def es_def d(2))
  then show "mset (done_of es) = mset [0..<workers]"
    by (rule mset_done_all)
  have "WDone \<in> set (ws s)"
    by (simp add: d(2) workers_def)
  with ip have pc: "panels_ch s = []"
    by (simp add: inv_pool_def)
  from ipa show f: "mset (fetched_of es) = mset (Panels dash)"
    by (simp add: inv_panels_def es_def d(2) pc sum_replicate_empty sum_replicate_mset_empty)
  from ipt f show "mset (written_of es) + mset (failed_paths rep es) =
           image_mset (imgFilePath rep) (mset (Panels dash))"
    by (simp add: inv_paths_def es_def)
  from il show lg: "image_mset (\<lambda>(i, e). imgFilePath_of_ID rep i) (mset (logged_of es)) =
           mset (failed_paths rep es)"
    by (simp add: inv_log_def es_def d(2) sum_replicate_empty sum_replicate_mset_empty)
  from ie show er: "mset (errs_ch s) = image_mset (\<lambda>(i, e). Some e) (mset (logged_of es))"
    by (simp add: inv_errs_def es_def d(2) sum_replicate_empty sum_replicate_mset_empty)
  from arg_cong[OF er, of set_mset] have "\<forall>x\<in>set (errs_ch s). x \<noteq> None"
    by auto
  then show dr: "drain (errs_ch s) = (case errs_ch s of [] \<Rightarrow> None | x # rest \<Rightarrow> x)"
    by (rule drain_all_Some)
  from arg_cong[OF er, of size] arg_cong[OF lg, of size]
  have "length (errs_ch s) = length (failed_paths rep es)"
    by simp
  then have e: "(errs_ch s = []) = (failed_paths rep es = [])"
    by (metis length_0_conv)
  show "(drain (errs_ch s) \<noteq> None) = (failed_paths rep es \<noteq> [])"
  proof (cases "errs_ch s")
    case Nil
    with e show ?thesis by simp
  next
    case (Cons x rest)
    with \<open>\<forall>x\<in>set (errs_ch s). x \<noteq> None\<close> have "x \<noteq> None" by simp
    with Cons e dr show ?thesis by simp
  qed
qed

lemma renderPNGsParallel_run:
  "renderPNGsParallel en rep sched dash w =
     Some (drain (errs_ch (run en rep sched (pool_init dash w))),
           pw (run en rep sched (pool_init dash w)))"
  using run_result(1)[of en rep sched dash w] by (simp add: renderPNGsParallel_def Let_def)

text \<open>On a dashboard without panels the workers only start and finish.\<close>

lemma inv_idle_step:
  assumes inv: "inv_idle w0 s" and pool: "inv_pool dash s"
    and i: "i \<le> length (ws s)" and ena: "enabled s i"
  shows "inv_idle w0 (step en rep i s)"
proof -
  from inv have pre: "inv_prefix w0 s" and pc: "panels_ch s = []"
    and st: "set (ws s) \<subseteq> {WNew, WRecv, WDone}" and f: "fs (pw s) = fs w0"
    and ec: "errs_ch s = []" and wk: "work_of (since w0 s) = []"
    by (simp_all add: inv_idle_def)
  have at: "ws s ! k \<in> {WNew, WRecv, WDone}" if "k < length (ws s)" for k
    using st that nth_mem by blast
  note p' = inv_prefix_step[OF pre i ena, of en rep]
  from pre pool i ena show ?thesis
  proof (cases rule: step_trace_cases[where en = en and rep = rep])
    case launch
    have "set ((ws s)[launched s := WRecv]) \<subseteq> {WNew, WRecv, WDone}"
      using st set_update_subset_insert[of "ws s" "launched s" WRecv] by auto
    with launch p' pc f ec wk show ?thesis
      by (simp add: inv_idle_def of_append of_go)
  next
    case (recv p ps)
    with pc show ?thesis by simp
  next
    case exit
    have "set ((ws s)[i := WDone]) \<subseteq> {WNew, WRecv, WDone}"
      using st set_update_subset_insert[of "ws s" i WDone] by auto
    with exit p' pc f ec wk show ?thesis
      by (simp add: inv_idle_def of_append of_done)
  next
    case (ok p add b)
    with at[of i] show ?thesis by simp
  next
    case (fail p e add)
    with at[of i] show ?thesis by simp
  next
    case (log p e)
    with at[of i] show ?thesis by simp
  next
    case (send e)
    with at[of i] show ?thesis by simp
  qed
qed

lemma inv_idle_run:
  assumes "Panels dash = []"
  shows "inv_idle w (run en rep sched (pool_init dash w))"
proof -
  have "inv_pool dash (run en rep sched (pool_init dash w)) \<and>
        inv_idle w (run en rep sched (pool_init dash w))"
  proof (rule run_preserves[where P = "\<lambda>s. inv_pool dash s \<and> inv_idle w s"])
    show "\<forall>s i. inv_pool dash s \<and> inv_idle w s \<longrightarrow> i \<le> length (ws s) \<longrightarrow> enabled s i \<longrightarrow>
            inv_pool dash (step en rep i s) \<and> inv_idle w (step en rep i s)"
      using inv_pool_step inv_idle_step by blast
    have pr: "inv_prefix w (pool_init dash w)"
      using inv_all_init[of rep dash w] by (simp add: inv_all_def)
    have "set (ws (pool_init dash w)) \<subseteq> {WNew, WRecv, WDone}"
      by (auto simp: pool_init_def)
    moreover have "panels_ch (pool_init dash w) = []" "fs (pw (pool_init dash w)) = fs w"
      "errs_ch (pool_init dash w) = []"
      using assms by (simp_all add: pool_init_def)
    ultimately have "inv_idle w (pool_init dash w)"
      using pr by (simp add: inv_idle_def since_init of_nil)
    then show "inv_pool dash (pool_init dash w) \<and> inv_idle w (pool_init dash w)"
      using inv_pool_init by simp
  qed
  then show ?thesis by simp
qed

text \<open>Where nothing about a panel fails, \<^verbatim>\<open>renderPNG\<close> returns nil.\<close>

lemma fst_renderPNG_ok:
  assumes "fetch_ok en rep p"
  shows "fst (renderPNG en rep p w) = None"
proof -
  from assms obtain b where b: "GetPanelPng (gClient rep) w p (dashName rep) (time rep) = Inr b"
    and rb: "read_err b = None"
    unfolding fetch_ok_def by blast
  from assms have c: "\<And>w'. Create_fault en w' (imgFilePath rep p) = None"
    and wr: "\<And>w'. Write_fault en w' (imgFilePath rep p) = None"
    unfolding fetch_ok_def by blast+
  show ?thesis
    by (simp add: renderPNG_def b Let_def os_Create_def c io_Copy_def wr rb)
qed

lemma inv_nofail_step:
  assumes inv: "inv_nofail en rep dash w0 s" and ipa: "inv_panels dash w0 s"
    and pre: "inv_prefix w0 s" and pool: "inv_pool dash s"
    and i: "i \<le> length (ws s)" and ena: "enabled s i"
  shows "inv_nofail en rep dash w0 (step en rep i s)"
  unfolding inv_nofail_def
proof
  assume ok: "\<forall>p\<in>set (Panels dash). fetch_ok en rep p"
  with inv have f: "failed_paths rep (since w0 s) = []"
    by (simp add: inv_nofail_def)
  from pre pool i ena show "failed_paths rep (since w0 (step en rep i s)) = []"
  proof (cases rule: step_trace_cases[where en = en and rep = rep])
    case (fail p e add)
    from mset_update_split[OF fail(1)] fail(2) obtain M where
      m: "mset (ws s) = add_mset (WRender p) M"
      by auto
    from ipa have "p \<in># mset (Panels dash)"
      unfolding inv_panels_def m by (metis in_flight.simps(1) image_mset_add_mset sum_mset.insert
          union_iff union_single_eq_member)
    then have "fetch_ok en rep p" using ok by simp
    from fst_renderPNG_ok[OF this, of "pw s"] fail show ?thesis by simp
  qed (use f in \<open>simp_all add: of_append of_go of_done of_log\<close>)
qed

lemma inv_nofail_run: "inv_nofail en rep dash w (run en rep sched (pool_init dash w))"
proof -
  have "inv_all rep dash w (run en rep sched (pool_init dash w)) \<and>
        inv_nofail en rep dash w (run en rep sched (pool_init dash w))"
  proof (rule run_preserves[where P = "\<lambda>s. inv_all rep dash w s \<and> inv_nofail en rep dash w s"])
    show "\<forall>s i. inv_all rep dash w s \<and> inv_nofail en rep dash w s \<longrightarrow>
            i \<le> length (ws s) \<longrightarrow> enabled s i \<longrightarrow>
            inv_all rep dash w (step en rep i s) \<and> inv_nofail en rep dash w (step en rep i s)"
      using inv_all_step inv_nofail_step unfolding inv_all_def by blast
    show "inv_all rep dash w (pool_init dash w) \<and> inv_nofail en rep dash w (pool_init dash w)"
      using inv_all_init by (simp add: inv_nofail_def since_init of_nil)
  qed
  then show ?thesis by simp
qed

text \<open>Later events and writes to other files leave a delivered image delivered.\<close>

lemma delivered_mono:
  assumes "delivered rep w0 es files p"
    and "files' (imgFilePath rep p) = files (imgFilePath rep p)"
  shows "delivered rep w0 (es @ add) files' p"
proof -
  from assms(1) obtain k q w1 b where k: "k < length es" and
    e: "es ! k = EvGetPanelPng q True" "ID q = ID p" "evs w1 = evs w0 @ take k es"
       "GetPanelPng (gClient rep) w1 q (dashName rep) (time rep) = Inr b"
       "files (imgFilePath rep p) = Some (File (Bytes (data b)))"
    unfolding delivered_def by blast
  from k have "k < length (es @ add)" "(es @ add) ! k = es ! k" "take k (es @ add) = take k es"
    by (simp_all add: nth_append)
  with e assms(2) show ?thesis
    unfolding delivered_def by metis
qed

lemma inv_clean_step:
  assumes inv: "inv_clean rep w0 s" and pre: "inv_prefix w0 s" and pool: "inv_pool dash s"
    and i: "i \<le> length (ws s)" and ena: "enabled s i"
  shows "inv_clean rep w0 (step en rep i s)"
  unfolding inv_clean_def
proof (intro impI ballI)
  fix p'
  assume nf: "failed_paths rep (since w0 (step en rep i s)) = []"
    and mem: "p' \<in> set (fetched_of (since w0 (step en rep i s)))"
  note old = inv[unfolded inv_clean_def, rule_format]
  from pre pool i ena
  show "delivered rep w0 (since w0 (step en rep i s)) (fs (pw (step en rep i s))) p'"
  proof (cases rule: step_trace_cases[where en = en and rep = rep])
    case launch
    from nf mem launch have "delivered rep w0 (since w0 s) (fs (pw s)) p'"
      by (intro old) (simp_all add: of_append of_go)
    from delivered_mono[OF this, of "fs (pw s)" "[EvGo (launched s)]"] launch show ?thesis
      by simp
  next
    case (recv p ps)
    with nf mem old[of p'] show ?thesis by simp
  next
    case exit
    from nf mem exit have "delivered rep w0 (since w0 s) (fs (pw s)) p'"
      by (intro old) (simp_all add: of_append of_done)
    from delivered_mono[OF this, of "fs (pw s)" "[EvWgDone i]"] exit show ?thesis
      by simp
  next
    case (ok p add b)
    from nf ok have nf0: "failed_paths rep (since w0 s) = []"
      by (simp add: of_append)
    show ?thesis
    proof (cases "imgFilePath rep p' = imgFilePath rep p")
      case True
      then have id: "ID p = ID p'"
        by (metis imgFilePath_inj)
      let ?k = "length (since w0 s)"
      from ok have a: "?k < length (since w0 s @ add)"
        and b: "(since w0 s @ add) ! ?k = EvGetPanelPng p True"
        by (simp_all add: nth_append hd_conv_nth)
      from pre have c: "evs (pw s) = evs w0 @ take ?k (since w0 s @ add)"
        by (simp add: inv_prefix_def)
      from ok True have d: "fs (pw (step en rep i s)) (imgFilePath rep p') = Some (File (Bytes (data b)))"
        by simp
      from a b id c ok(14) d show ?thesis
        unfolding delivered_def ok(4) by blast
    next
      case False
      then have "p' \<noteq> p" by auto
      with mem ok have "p' \<in> set (fetched_of (since w0 s))"
        by (simp add: of_append)
      from old[OF nf0 this] have "delivered rep w0 (since w0 s) (fs (pw s)) p'" .
      from delivered_mono[OF this, of "fs (pw (step en rep i s))" add] False ok show ?thesis
        by simp
    qed
  next
    case (fail p e add)
    with nf show ?thesis by (simp add: of_append)
  next
    case (log p e)
    from nf mem log have "delivered rep w0 (since w0 s) (fs (pw s)) p'"
      by (intro old) (simp_all add: of_append of_log)
    from delivered_mono[OF this, of "fs (pw s)"
        "[EvLog LError ''creating image for panel ID %d error: %v'' [AInt (ID p), AErr e]]"] log
    show ?thesis
      by simp
  next
    case (send e)
    with nf mem old[of p'] show ?thesis by simp
  qed
qed

lemma inv_clean_run: "inv_clean rep w (run en rep sched (pool_init dash w))"
proof -
  have "inv_all rep dash w (run en rep sched (pool_init dash w)) \<and>
        inv_clean rep w (run en rep sched (pool_init dash w))"
  proof (rule run_preserves[where P = "\<lambda>s. inv_all rep dash w s \<and> inv_clean rep w s"])
    show "\<forall>s i. inv_all rep dash w s \<and> inv_clean rep w s \<longrightarrow>
            i \<le> length (ws s) \<longrightarrow> enabled s i \<longrightarrow>
            inv_all rep dash w (step en rep i s) \<and> inv_clean rep w (step en rep i s)"
      using inv_all_step inv_clean_step unfolding inv_all_def by blast
    show "inv_all rep dash w (pool_init dash w) \<and> inv_clean rep w (pool_init dash w)"
      using inv_all_init by (simp add: inv_clean_def since_init of_nil)
  qed
  then show ?thesis by simp
qed

text \<open>
  Claim C3. For every schedule the call returns, and it returns an error exactly when
  among the events it added there is a failed request, a failed creation or a failed
  copy. Before it returns, all five workers have run their \<^verbatim>\<open>wg.Done()\<close>, every panel
  of the dashboard has been requested (a failure stops nothing), every request has
  ended in a completed copy or in a failure at the path of its panel, and for every
  failure there is one log line with the identifier of the panel of that path. The
  error returned is the first one on the channel of errors, which holds exactly the
  errors logged.
\<close>

theorem renderPNGsParallel_error_iff_failure:
  "\<exists>r w' es. renderPNGsParallel en rep sched dash w = Some (r, w') \<and>
     evs w' = evs w @ es \<and>
     (r \<noteq> None) = (failed_paths rep es \<noteq> []) \<and>
     mset (done_of es) = mset [0..<workers] \<and>
     mset (fetched_of es) = mset (Panels dash) \<and>
     mset (written_of es) + mset (failed_paths rep es) =
       image_mset (imgFilePath rep) (mset (Panels dash)) \<and>
     image_mset (\<lambda>(i, e). imgFilePath_of_ID rep i) (mset (logged_of es)) =
       mset (failed_paths rep es) \<and>
     (let ch = errs_ch (run en rep sched (pool_init dash w)) in
        r = drain ch \<and> drain ch = (case ch of [] \<Rightarrow> None | x # rest \<Rightarrow> x) \<and>
        mset ch = image_mset (\<lambda>(i, e). Some e) (mset (logged_of es)))"
proof -
  define s where "s = run en rep sched (pool_init dash w)"
  note r = run_result[where en = en and rep = rep and sched = sched and dash = dash and w = w,
      folded s_def]
  have res: "renderPNGsParallel en rep sched dash w = Some (drain (errs_ch s), pw s)"
    unfolding s_def by (rule renderPNGsParallel_run)
  from r(8,10) have ch: "let ch = errs_ch s in
        drain (errs_ch s) = drain ch \<and> drain ch = (case ch of [] \<Rightarrow> None | x # rest \<Rightarrow> x) \<and>
        mset ch = image_mset (\<lambda>(i, e). Some e) (mset (logged_of (since w s)))"
    by (simp add: Let_def)
  from res r(2) r(9) r(4) r(5) r(6) r(7) ch show ?thesis
    unfolding s_def by blast
qed

theorem renderPNGsParallel_error_iff_failure_witness:
  "\<exists>w' es.
     renderPNGsParallel env_ok (rep_p2_fails [panel1, panel2, panel3]) sched0
       (dash_of [panel1, panel2, panel3]) world0 = Some (Some err_p2, w') \<and>
     evs w' = evs world0 @ es \<and>
     failed_paths (rep_p2_fails [panel1, panel2, panel3]) es = [''tmp/6ba7b810/images/image2.png''] \<and>
     logged_of es = [(2, err_p2)] \<and>
     mset (done_of es) = mset [0..<workers] \<and>
     mset (fetched_of es) = mset (Panels (dash_of [panel1, panel2, panel3])) \<and>
     errs_ch (run env_ok (rep_p2_fails [panel1, panel2, panel3]) sched0
                (pool_init (dash_of [panel1, panel2, panel3]) world0)) = [Some err_p2]"
proof -
  from renderPNGsParallel_error_iff_failure[of env_ok "rep_p2_fails [panel1, panel2, panel3]"
      sched0 "dash_of [panel1, panel2, panel3]" world0]
  obtain r w' es where
    a: "renderPNGsParallel env_ok (rep_p2_fails [panel1, panel2, panel3]) sched0
          (dash_of [panel1, panel2, panel3]) world0 = Some (r, w')" and
    b: "evs w' = evs world0 @ es" and
    c: "(r \<noteq> None) = (failed_paths (rep_p2_fails [panel1, panel2, panel3]) es \<noteq> [])" and
    d: "mset (done_of es) = mset [0..<workers]" and
    e: "mset (fetched_of es) = mset (Panels (dash_of [panel1, panel2, panel3]))"
    by blast
  have v1: "map_option fst (renderPNGsParallel env_ok (rep_p2_fails [panel1, panel2, panel3]) sched0
          (dash_of [panel1, panel2, panel3]) world0) = Some (Some err_p2)"
    by code_simp
  have v2: "failed_paths (rep_p2_fails [panel1, panel2, panel3])
              (drop (length (evs world0))
                 (evs (snd (the (renderPNGsParallel env_ok (rep_p2_fails [panel1, panel2, panel3])
                    sched0 (dash_of [panel1, panel2, panel3]) world0))))) =
            [''tmp/6ba7b810/images/image2.png'']"
    by code_simp
  have v3: "logged_of
              (drop (length (evs world0))
                 (evs (snd (the (renderPNGsParallel env_ok (rep_p2_fails [panel1, panel2, panel3])
                    sched0 (dash_of [panel1, panel2, panel3]) world0))))) =
            [(2, err_p2)]"
    by code_simp
  have v4: "errs_ch (run env_ok (rep_p2_fails [panel1, panel2, panel3]) sched0
                (pool_init (dash_of [panel1, panel2, panel3]) world0)) = [Some err_p2]"
    by code_simp
  from b have es: "es = drop (length (evs world0)) (evs w')"
    by simp
  from a v1 have r: "r = Some err_p2"
    by simp
  from v2 a have f: "failed_paths (rep_p2_fails [panel1, panel2, panel3]) es =
      [''tmp/6ba7b810/images/image2.png'']"
    unfolding es by simp
  from v3 a have l: "logged_of es = [(2, err_p2)]"
    unfolding es by simp
  from a r have a': "renderPNGsParallel env_ok (rep_p2_fails [panel1, panel2, panel3]) sched0
          (dash_of [panel1, panel2, panel3]) world0 = Some (Some err_p2, w')"
    by simp
  from a' b f l d e v4 show ?thesis
    by blast
qed

text \<open>The example service delivers to every request the bytes of its panel.\<close>

lemma delivered_by_id:
  assumes "delivered (rep_by_id ps) w0 es files p"
  shows "files (imgFilePath (rep_by_id ps) p) = Some (File (Bytes [137, 80, 78, 71, nat (ID p)]))"
proof -
  from assms obtain q w1 b where "ID q = ID p"
    and g: "GetPanelPng (gClient (rep_by_id ps)) w1 q (dashName (rep_by_id ps)) (time (rep_by_id ps)) = Inr b"
    and f: "files (imgFilePath (rep_by_id ps) p) = Some (File (Bytes (data b)))"
    unfolding delivered_def by blast
  from g have "data b = [137, 80, 78, 71, nat (ID q)]"
    by (auto simp: rep_by_id_def new_def client_by_id_def)
  with f \<open>ID q = ID p\<close> show ?thesis by simp
qed

lemma fetch_ok_by_id: "fetch_ok env_ok (rep_by_id ps) p"
  by (simp add: fetch_ok_def env_ok_def rep_by_id_def new_def client_by_id_def)

lemma imgFilePath_by_id:
  "imgFilePath (rep_by_id [panel1, panel2, panel3]) panel1 = ''tmp/6ba7b810/images/image1.png''"
  "imgFilePath (rep_by_id [panel1, panel2, panel3]) panel2 = ''tmp/6ba7b810/images/image2.png''"
  "imgFilePath (rep_by_id [panel1, panel2, panel3]) panel3 = ''tmp/6ba7b810/images/image3.png''"
  by code_simp+

text \<open>
  Claim C4. For every schedule the call returns after one request per panel of the
  dashboard (as multisets: a panel listed twice is requested twice), whatever fails.
  Where nothing about the panels of the dashboard can fail, no request, creation or copy
  fails; and when none has failed, the call returns nil, there is exactly one completed
  copy per panel, at the path of the panel, and the file of every panel holds the bytes
  that the service returned to a request of the call for a panel with its identifier.
\<close>

theorem renderPNGsParallel_every_panel_once:
  "\<exists>r w' es. renderPNGsParallel en rep sched dash w = Some (r, w') \<and>
     evs w' = evs w @ es \<and>
     mset (fetched_of es) = mset (Panels dash) \<and>
     ((\<forall>p\<in>set (Panels dash). fetch_ok en rep p) \<longrightarrow> failed_paths rep es = []) \<and>
     (failed_paths rep es = [] \<longrightarrow>
        r = None \<and>
        mset (written_of es) = image_mset (imgFilePath rep) (mset (Panels dash)) \<and>
        (\<forall>p\<in>set (Panels dash). delivered rep w es (fs w') p))"
proof -
  define s where "s = run en rep sched (pool_init dash w)"
  note r = run_result[where en = en and rep = rep and sched = sched and dash = dash and w = w,
      folded s_def]
  have res: "renderPNGsParallel en rep sched dash w = Some (drain (errs_ch s), pw s)"
    unfolding s_def by (rule renderPNGsParallel_run)
  have nf: "(\<forall>p\<in>set (Panels dash). fetch_ok en rep p) \<longrightarrow> failed_paths rep (since w s) = []"
    using inv_nofail_run[of en rep dash w sched] by (simp add: inv_nofail_def s_def)
  have cl: "failed_paths rep (since w s) = [] \<longrightarrow>
      drain (errs_ch s) = None \<and>
      mset (written_of (since w s)) = image_mset (imgFilePath rep) (mset (Panels dash)) \<and>
      (\<forall>p\<in>set (Panels dash). delivered rep w (since w s) (fs (pw s)) p)"
  proof
    assume f: "failed_paths rep (since w s) = []"
    with r(9) have a: "drain (errs_ch s) = None" by simp
    from r(6) f have b: "mset (written_of (since w s)) =
        image_mset (imgFilePath rep) (mset (Panels dash))" by simp
    from r(5) have "set (fetched_of (since w s)) = set (Panels dash)"
      by (rule mset_eq_setD)
    with inv_clean_run[of rep w en sched dash] f
    have c: "\<forall>p\<in>set (Panels dash). delivered rep w (since w s) (fs (pw s)) p"
      by (simp add: inv_clean_def s_def)
    from a b c show "drain (errs_ch s) = None \<and>
      mset (written_of (since w s)) = image_mset (imgFilePath rep) (mset (Panels dash)) \<and>
      (\<forall>p\<in>set (Panels dash). delivered rep w (since w s) (fs (pw s)) p)"
      by (intro conjI)
  qed
  from res r(2) r(5) nf cl show ?thesis
    by blast
qed

theorem renderPNGsParallel_every_panel_once_witness:
  "fetch_ok env_ok (rep_by_id [panel1, panel2, panel3]) panel1 \<and>
   fetch_ok env_ok (rep_by_id [panel1, panel2, panel3]) panel2 \<and>
   fetch_ok env_ok (rep_by_id [panel1, panel2, panel3]) panel3 \<and>
   (\<exists>w' es.
      renderPNGsParallel env_ok (rep_by_id [panel1, panel2, panel3]) sched0
        (dash_of [panel1, panel2, panel3]) world0 = Some (None, w') \<and>
      evs w' = evs world0 @ es \<and>
      failed_paths (rep_by_id [panel1, panel2, panel3]) es = [] \<and>
      mset (fetched_of es) = mset (Panels (dash_of [panel1, panel2, panel3])) \<and>
      mset (written_of es) =
        image_mset (imgFilePath (rep_by_id [panel1, panel2, panel3]))
          (mset (Panels (dash_of [panel1, panel2, panel3]))) \<and>
      delivered (rep_by_id [panel1, panel2, panel3]) world0 es (fs w') panel1 \<and>
      delivered (rep_by_id [panel1, panel2, panel3]) world0 es (fs w') panel2 \<and>
      delivered (rep_by_id [panel1, panel2, panel3]) world0 es (fs w') panel3 \<and>
      fs w' ''tmp/6ba7b810/images/image1.png'' = Some (File (Bytes [137, 80, 78, 71, 1])) \<and>
      fs w' ''tmp/6ba7b810/images/image2.png'' = Some (File (Bytes [137, 80, 78, 71, 2])) \<and>
      fs w' ''tmp/6ba7b810/images/image3.png'' = Some (File (Bytes [137, 80, 78, 71, 3])))"
proof -
  have ok: "\<forall>p\<in>set (Panels (dash_of [panel1, panel2, panel3])).
              fetch_ok env_ok (rep_by_id [panel1, panel2, panel3]) p"
    using fetch_ok_by_id by blast
  have m: "panel1 \<in> set (Panels (dash_of [panel1, panel2, panel3]))"
    "panel2 \<in> set (Panels (dash_of [panel1, panel2, panel3]))"
    "panel3 \<in> set (Panels (dash_of [panel1, panel2, panel3]))"
    by (simp_all add: dash_of_def)
  from renderPNGsParallel_every_panel_once[of env_ok "rep_by_id [panel1, panel2, panel3]"
      sched0 "dash_of [panel1, panel2, panel3]" world0] ok
  obtain r w' es where
    a: "renderPNGsParallel env_ok (rep_by_id [panel1, panel2, panel3]) sched0
          (dash_of [panel1, panel2, panel3]) world0 = Some (r, w')" and
    b: "evs w' = evs world0 @ es" and
    c: "mset (fetched_of es) = mset (Panels (dash_of [panel1, panel2, panel3]))" and
    d: "failed_paths (rep_by_id [panel1, panel2, panel3]) es = []" and
    e: "r = None" and
    f: "mset (written_of es) =
        image_mset (imgFilePath (rep_by_id [panel1, panel2, panel3]))
          (mset (Panels (dash_of [panel1, panel2, panel3])))" and
    g: "\<forall>p\<in>set (Panels (dash_of [panel1, panel2, panel3])).
          delivered (rep_by_id [panel1, panel2, panel3]) world0 es (fs w') p"
    by blast
  from g m have d1: "delivered (rep_by_id [panel1, panel2, panel3]) world0 es (fs w') panel1"
    and d2: "delivered (rep_by_id [panel1, panel2, panel3]) world0 es (fs w') panel2"
    and d3: "delivered (rep_by_id [panel1, panel2, panel3]) world0 es (fs w') panel3"
    by blast+
  have ids: "nat (ID panel1) = 1" "nat (ID panel2) = 2" "nat (ID panel3) = 3"
    by (simp_all add: panel1_def panel2_def panel3_def)
  from delivered_by_id[OF d1]
  have f1: "fs w' ''tmp/6ba7b810/images/image1.png'' = Some (File (Bytes [137, 80, 78, 71, 1]))"
    by (simp only: imgFilePath_by_id ids)
  from delivered_by_id[OF d2]
  have f2: "fs w' ''tmp/6ba7b810/images/image2.png'' = Some (File (Bytes [137, 80, 78, 71, 2]))"
    by (simp only: imgFilePath_by_id ids)
  from delivered_by_id[OF d3]
  have f3: "fs w' ''tmp/6ba7b810/images/image3.png'' = Some (File (Bytes [137, 80, 78, 71, 3]))"
    by (simp only: imgFilePath_by_id ids)
  from a e have a': "renderPNGsParallel env_ok (rep_by_id [panel1, panel2, panel3]) sched0
          (dash_of [panel1, panel2, panel3]) world0 = Some (None, w')"
    by simp
  have "\<exists>w' es.
      renderPNGsParallel env_ok (rep_by_id [panel1, panel2, panel3]) sched0
        (dash_of [panel1, panel2, panel3]) world0 = Some (None, w') \<and>
      evs w' = evs world0 @ es \<and>
      failed_paths (rep_by_id [panel1, panel2, panel3]) es = [] \<and>
      mset (fetched_of es) = mset (Panels (dash_of [panel1, panel2, panel3])) \<and>
      mset (written_of es) =
        image_mset (imgFilePath (rep_by_id [panel1, panel2, panel3]))
          (mset (Panels (dash_of [panel1, panel2, panel3]))) \<and>
      delivered (rep_by_id [panel1, panel2, panel3]) world0 es (fs w') panel1 \<and>
      delivered (rep_by_id [panel1, panel2, panel3]) world0 es (fs w') panel2 \<and>
      delivered (rep_by_id [panel1, panel2, panel3]) world0 es (fs w') panel3 \<and>
      fs w' ''tmp/6ba7b810/images/image1.png'' = Some (File (Bytes [137, 80, 78, 71, 1])) \<and>
      fs w' ''tmp/6ba7b810/images/image2.png'' = Some (File (Bytes [137, 80, 78, 71, 2])) \<and>
      fs w' ''tmp/6ba7b810/images/image3.png'' = Some (File (Bytes [137, 80, 78, 71, 3]))"
    using a' b d c f d1 d2 d3 f1 f2 f3 by blast
  with fetch_ok_by_id show ?thesis
    by blast
qed

text \<open>The events are the starts, the finishes and the rest.\<close>

lemma mset_events_split:
  "mset es = mset (map EvGo (go_of es)) + mset (map EvWgDone (done_of es)) + mset (work_of es)"
proof (induction es)
  case Nil
  show ?case by (simp add: of_nil)
next
  case (Cons e es)
  have "e # es = [e] @ es" by simp
  then have s: "go_of (e # es) = go_of [e] @ go_of es" "done_of (e # es) = done_of [e] @ done_of es"
    "work_of (e # es) = work_of [e] @ work_of es"
    by (simp_all only: of_append)
  have "mset [e] = mset (map EvGo (go_of [e])) + mset (map EvWgDone (done_of [e])) + mset (work_of [e])"
    by (cases e) (simp_all add: go_of_def done_of_def work_of_def)
  with Cons show ?case
    unfolding s by simp
qed

text \<open>
  Claim C10. For every report, environment, dashboard and schedule the call returns,
  and among the events it added the \<^verbatim>\<open>go\<close> statement ran for the workers 0 to 4, in this
  order, and each of the five ran its \<^verbatim>\<open>wg.Done()\<close> once. On a dashboard without a
  panel these ten events are all there is: the call returns nil and no file has changed.
\<close>

theorem renderPNGsParallel_five_workers:
  "\<exists>r w' es. renderPNGsParallel en rep sched dash w = Some (r, w') \<and>
     evs w' = evs w @ es \<and>
     go_of es = [0..<5] \<and>
     mset (done_of es) = mset [0..<5] \<and>
     (Panels dash = [] \<longrightarrow>
        r = None \<and> fs w' = fs w \<and>
        mset es = mset (map EvGo [0..<5]) + mset (map EvWgDone [0..<5]))"
proof -
  define s where "s = run en rep sched (pool_init dash w)"
  note r = run_result[where en = en and rep = rep and sched = sched and dash = dash and w = w,
      folded s_def]
  have res: "renderPNGsParallel en rep sched dash w = Some (drain (errs_ch s), pw s)"
    unfolding s_def by (rule renderPNGsParallel_run)
  from r(3) have g: "go_of (since w s) = [0..<5]"
    by (simp only: workers_def)
  from r(4) have d: "mset (done_of (since w s)) = mset [0..<5]"
    by (simp only: workers_def)
  have e: "Panels dash = [] \<longrightarrow>
        drain (errs_ch s) = None \<and> fs (pw s) = fs w \<and>
        mset (since w s) = mset (map EvGo [0..<5]) + mset (map EvWgDone [0..<5])"
  proof
    assume "Panels dash = []"
    from inv_idle_run[OF this, of w en rep sched]
    have i: "errs_ch s = []" "fs (pw s) = fs w" "work_of (since w s) = []"
      by (simp_all add: inv_idle_def s_def)
    have "mset (since w s) = mset (map EvGo (go_of (since w s))) +
        mset (map EvWgDone (done_of (since w s))) + mset (work_of (since w s))"
      by (rule mset_events_split)
    also have "\<dots> = mset (map EvGo [0..<5]) + image_mset EvWgDone (mset (done_of (since w s)))"
      by (simp only: g i(3)) simp
    also have "\<dots> = mset (map EvGo [0..<5]) + mset (map EvWgDone [0..<5])"
      by (simp only: d) simp
    finally show "drain (errs_ch s) = None \<and> fs (pw s) = fs w \<and>
        mset (since w s) = mset (map EvGo [0..<5]) + mset (map EvWgDone [0..<5])"
      using i by simp
  qed
  from res r(2) g d e show ?thesis
    by blast
qed

theorem renderPNGsParallel_five_workers_witness:
  "Panels (dash_of []) = [] \<and>
   (\<exists>w' es.
      renderPNGsParallel env_ok (rep_ok []) sched0 (dash_of []) world0 = Some (None, w') \<and>
      evs w' = evs world0 @ es \<and> fs w' = fs world0 \<and>
      go_of es = [0..<5] \<and> mset (done_of es) = mset [0..<5] \<and>
      mset es = mset (map EvGo [0..<5]) + mset (map EvWgDone [0..<5])) \<and>
   (\<exists>r w' es.
      renderPNGsParallel env_ok (rep_p2_fails [panel1, panel2, panel3]) sched0
        (dash_of [panel1, panel2, panel3]) world0 = Some (r, w') \<and>
      evs w' = evs world0 @ es \<and>
      go_of es = [0..<5] \<and> mset (done_of es) = mset [0..<5])"
proof -
  have p: "Panels (dash_of []) = []"
    by (simp add: dash_of_def)
  from renderPNGsParallel_five_workers[of env_ok "rep_ok []" sched0 "dash_of []" world0] p
  have a: "\<exists>w' es.
      renderPNGsParallel env_ok (rep_ok []) sched0 (dash_of []) world0 = Some (None, w') \<and>
      evs w' = evs world0 @ es \<and> fs w' = fs world0 \<and>
      go_of es = [0..<5] \<and> mset (done_of es) = mset [0..<5] \<and>
      mset es = mset (map EvGo [0..<5]) + mset (map EvWgDone [0..<5])"
    by blast
  from renderPNGsParallel_five_workers[of env_ok "rep_p2_fails [panel1, panel2, panel3]" sched0
      "dash_of [panel1, panel2, panel3]" world0]
  have b: "\<exists>r w' es.
      renderPNGsParallel env_ok (rep_p2_fails [panel1, panel2, panel3]) sched0
        (dash_of [panel1, panel2, panel3]) world0 = Some (r, w') \<and>
      evs w' = evs world0 @ es \<and>
      go_of es = [0..<5] \<and> mset (done_of es) = mset [0..<5]"
    by blast
  from p a b show ?thesis
    by (intro conjI)
qed

end
